theory Spec2Isabelle
  imports Complex_Main "HOL-Library.Sublist" "HOL-Library.Multiset" "HOL-Library.Log_Nat"
begin

section \<open>Fuzzy employee search (search.service.ts)\<close>

subsection \<open>JavaScript numbers\<close>

text \<open>
  A JavaScript number is an IEEE double: a finite value, or one of the three values that
  a division by zero can produce. A finite double is a rational, and every arithmetic
  operation returns the double nearest to the exact result, ties going to the even
  significand. \<open>round64\<close> is that rounding for a significand of 53 bits:
  \<open>expo x\<close> is the exponent \<open>e\<close> with \<open>2^e \<le> x < 2^(e+1)\<close>, and \<open>x\<close> is rounded to a
  multiple of \<open>2^(e-52)\<close>. The exponent range and the sign of zero are not modelled:
  the numbers of this program are lengths, quotients of lengths and a few sums and
  products of them, far from overflow and underflow.
\<close>

definition rne :: "rat \<Rightarrow> int" where
  "rne x = (let f = \<lfloor>x\<rfloor>; d = x - of_int f
            in if d < 1 / 2 then f else if 1 / 2 < d then f + 1
               else if even f then f else f + 1)"

definition expo :: "rat \<Rightarrow> int" where
  "expo x = (case quotient_of x of (p, q) \<Rightarrow>
              let e0 = bitlen p - bitlen q in if 2 powi e0 \<le> x then e0 else e0 - 1)"

definition round64 :: "rat \<Rightarrow> rat" where
  "round64 x = (if x = 0 then 0
                else let u = 2 powi (expo \<bar>x\<bar> - 52)
                     in sgn x * of_int (rne (\<bar>x\<bar> / u)) * u)"

text \<open>The four operations on finite doubles, and the conversion of a length.\<close>

definition fadd :: "rat \<Rightarrow> rat \<Rightarrow> rat" where
  "fadd a b = round64 (a + b)"

definition fsub :: "rat \<Rightarrow> rat \<Rightarrow> rat" where
  "fsub a b = round64 (a - b)"

definition fmul :: "rat \<Rightarrow> rat \<Rightarrow> rat" where
  "fmul a b = round64 (a * b)"

definition fdiv :: "rat \<Rightarrow> rat \<Rightarrow> rat" where
  "fdiv a b = round64 (a / b)"

definition fnat :: "nat \<Rightarrow> rat" where
  "fnat n = round64 (of_nat n)"

datatype number = Fin rat | PosInf | NegInf | NaN

text \<open>A decimal literal of the source denotes the nearest double.\<close>

definition lit :: "rat \<Rightarrow> number" where
  "lit x = Fin (round64 x)"

fun sign_of :: "number \<Rightarrow> rat" where
  "sign_of (Fin a) = sgn a"
| "sign_of PosInf = 1"
| "sign_of NegInf = - 1"
| "sign_of NaN = 0"

definition inf_of_sign :: "rat \<Rightarrow> number" where
  "inf_of_sign s = (if s = 0 then NaN else if 0 < s then PosInf else NegInf)"

fun num_neg :: "number \<Rightarrow> number" where
  "num_neg (Fin a) = Fin (- a)"
| "num_neg PosInf = NegInf"
| "num_neg NegInf = PosInf"
| "num_neg NaN = NaN"

fun num_add :: "number \<Rightarrow> number \<Rightarrow> number" where
  "num_add (Fin a) (Fin b) = Fin (fadd a b)"
| "num_add NaN _ = NaN"
| "num_add _ NaN = NaN"
| "num_add PosInf NegInf = NaN"
| "num_add NegInf PosInf = NaN"
| "num_add PosInf _ = PosInf"
| "num_add _ PosInf = PosInf"
| "num_add NegInf _ = NegInf"
| "num_add _ NegInf = NegInf"

definition num_sub :: "number \<Rightarrow> number \<Rightarrow> number" where
  "num_sub a b = num_add a (num_neg b)"

fun num_mul :: "number \<Rightarrow> number \<Rightarrow> number" where
  "num_mul (Fin a) (Fin b) = Fin (fmul a b)"
| "num_mul NaN _ = NaN"
| "num_mul _ NaN = NaN"
| "num_mul a b = inf_of_sign (sign_of a * sign_of b)"

text \<open>
  Division: \<open>0 / 0\<close> is \<open>NaN\<close>, \<open>x / 0\<close> is an infinity for \<open>x \<noteq> 0\<close>; no
  division raises.
\<close>

fun num_div :: "number \<Rightarrow> number \<Rightarrow> number" where
  "num_div (Fin a) (Fin b) = (if b = 0 then inf_of_sign (sgn a) else Fin (fdiv a b))"
| "num_div NaN _ = NaN"
| "num_div _ NaN = NaN"
| "num_div (Fin a) _ = Fin 0"
| "num_div a (Fin b) = inf_of_sign (sign_of a * (if b < 0 then - 1 else 1))"
| "num_div _ _ = NaN"

text \<open>Comparisons: every comparison with \<open>NaN\<close> is false.\<close>

fun num_gt :: "number \<Rightarrow> number \<Rightarrow> bool" where
  "num_gt (Fin a) (Fin b) = (b < a)"
| "num_gt NaN _ = False"
| "num_gt _ NaN = False"
| "num_gt PosInf b = (b \<noteq> PosInf)"
| "num_gt a NegInf = (a \<noteq> NegInf)"
| "num_gt _ _ = False"

fun num_ge :: "number \<Rightarrow> number \<Rightarrow> bool" where
  "num_ge NaN _ = False"
| "num_ge _ NaN = False"
| "num_ge a b = (a = b \<or> num_gt a b)"

definition num_of_nat :: "nat \<Rightarrow> number" where
  "num_of_nat n = Fin (fnat n)"

text \<open>\<open>Math.max(...xs)\<close>: \<open>-Infinity\<close> for no argument, \<open>NaN\<close> if any argument is.\<close>

definition max2 :: "number \<Rightarrow> number \<Rightarrow> number" where
  "max2 a b = (if a = NaN \<or> b = NaN then NaN else if num_gt b a then b else a)"

definition Math_max :: "number list \<Rightarrow> number" where
  "Math_max xs = foldl max2 NegInf xs"

text \<open>The rational behind a finite number (used in statements only).\<close>

fun val :: "number \<Rightarrow> rat" where
  "val (Fin a) = a"
| "val _ = 0"

subsection \<open>JavaScript strings\<close>

text \<open>
  A string is the list of its code units; the model keeps the code units below 256
  (type \<open>char\<close>). On these, \<open>toLowerCase\<close> maps A-Z and the Latin-1 capitals
  (192-222 except 215) to the code unit 32 above, and \<open>trim\<close> strips the code units
  9-13, 32 and 160 from both ends.
\<close>

definition lower_char :: "char \<Rightarrow> char" where
  "lower_char c =
     (let n = (of_char c :: nat)
      in if (65 \<le> n \<and> n \<le> 90) \<or> (192 \<le> n \<and> n \<le> 222 \<and> n \<noteq> 215)
         then char_of (n + 32) else c)"

definition toLowerCase :: "string \<Rightarrow> string" where
  "toLowerCase s = map lower_char s"

definition isWhiteSpace :: "char \<Rightarrow> bool" where
  "isWhiteSpace c = (let n = (of_char c :: nat) in (9 \<le> n \<and> n \<le> 13) \<or> n = 32 \<or> n = 160)"

definition trim :: "string \<Rightarrow> string" where
  "trim s = rev (dropWhile isWhiteSpace (rev (dropWhile isWhiteSpace s)))"

definition startsWith :: "string \<Rightarrow> string \<Rightarrow> bool" where
  "startsWith text s = (take (length s) text = s)"

fun str_includes :: "string \<Rightarrow> string \<Rightarrow> bool" where
  "str_includes [] s = (s = [])"
| "str_includes (c # cs) s = (startsWith (c # cs) s \<or> str_includes cs s)"

subsection \<open>levenshteinDistance\<close>

text \<open>
  The matrix \<open>dp\<close> is a list of rows, created with \<open>m + 1\<close> rows of \<open>n + 1\<close> zeros.
  Each \<open>for\<close> loop runs over a fixed index range and is a \<open>fold\<close> over that range;
  every index it reads or writes lies inside the matrix and the strings.
\<close>

definition dp_get :: "nat list list \<Rightarrow> nat \<Rightarrow> nat \<Rightarrow> nat" where
  "dp_get dp i j = dp ! i ! j"

definition dp_set :: "nat list list \<Rightarrow> nat \<Rightarrow> nat \<Rightarrow> nat \<Rightarrow> nat list list" where
  "dp_set dp i j v = dp[i := (dp ! i)[j := v]]"

definition fill_cell :: "string \<Rightarrow> string \<Rightarrow> nat \<Rightarrow> nat \<Rightarrow> nat list list \<Rightarrow> nat list list" where
  "fill_cell str1 str2 i j dp =
     (if str1 ! (i - 1) = str2 ! (j - 1)
      then dp_set dp i j (dp_get dp (i - 1) (j - 1))
      else dp_set dp i j
             (1 + min (dp_get dp (i - 1) j) (min (dp_get dp i (j - 1)) (dp_get dp (i - 1) (j - 1)))))"

definition levenshteinDistance :: "string \<Rightarrow> string \<Rightarrow> nat" where
  "levenshteinDistance str1 str2 =
     (let m = length str1;
          n = length str2;
          dp0 = replicate (m + 1) (replicate (n + 1) 0);
          dp1 = fold (\<lambda>i dp. dp_set dp i 0 i) [0 ..< m + 1] dp0;
          dp2 = fold (\<lambda>j dp. dp_set dp 0 j j) [0 ..< n + 1] dp1;
          dp3 = fold (\<lambda>i dp. fold (\<lambda>j dp. fill_cell str1 str2 i j dp) [1 ..< n + 1] dp)
                  [1 ..< m + 1] dp2
      in dp_get dp3 m n)"

subsection \<open>subsequenceMatchScore\<close>

text \<open>
  The loop state is \<open>i\<close>, \<open>searchIndex\<close>, \<open>consecutiveMatches\<close> and \<open>maxConsecutive\<close>;
  the loop returns the final \<open>searchIndex\<close> and \<open>maxConsecutive\<close>.
\<close>

function subsequenceLoop :: "string \<Rightarrow> string \<Rightarrow> nat \<Rightarrow> nat \<Rightarrow> nat \<Rightarrow> nat \<Rightarrow> nat \<times> nat" where
  "subsequenceLoop search text i searchIndex consecutiveMatches maxConsecutive =
     (if i < length text \<and> searchIndex < length search
      then if text ! i = search ! searchIndex
           then subsequenceLoop search text (i + 1) (searchIndex + 1) (consecutiveMatches + 1)
                  (max maxConsecutive (consecutiveMatches + 1))
           else subsequenceLoop search text (i + 1) searchIndex 0 maxConsecutive
      else (searchIndex, maxConsecutive))"
  by pat_completeness auto
termination
  by (relation "measure (\<lambda>(search, text, i, si, c, m). length text - i)") auto

declare subsequenceLoop.simps [simp del]

definition subsequenceMatchScore :: "string \<Rightarrow> string \<Rightarrow> number" where
  "subsequenceMatchScore search text =
     (case subsequenceLoop search text 0 0 0 0 of
        (searchIndex, maxConsecutive) \<Rightarrow>
          if searchIndex = length search
          then let baseScore = num_div (num_of_nat searchIndex) (num_of_nat (length text));
                   consecutiveBonus = num_div (num_of_nat maxConsecutive) (num_of_nat (length search))
               in num_div (num_add baseScore consecutiveBonus) (Fin 2)
          else Fin 0)"

subsection \<open>fuzzyMatchScore\<close>

definition fuzzyMatchScore :: "string \<Rightarrow> string \<Rightarrow> number" where
  "fuzzyMatchScore searchTerm target =
     (let search = toLowerCase searchTerm;
          text = toLowerCase target
      in if text = search then lit 1
         else if str_includes text search then lit (9 / 10)
         else if startsWith text search \<or> startsWith search text then lit (85 / 100)
         else let subsequenceScore = subsequenceMatchScore search text
              in if num_gt subsequenceScore (Fin 0)
                 then num_add (lit (5 / 10)) (num_mul subsequenceScore (lit (3 / 10)))
                 else let maxLen = max (length search) (length text)
                      in if maxLen = 0 then Fin 0
                         else let distance = levenshteinDistance search text;
                                  similarity = num_sub (Fin 1)
                                                 (num_div (num_of_nat distance) (num_of_nat maxLen))
                              in if num_gt similarity (lit (4 / 10))
                                 then num_mul similarity (lit (7 / 10))
                                 else Fin 0)"

subsection \<open>searchEmployees\<close>

text \<open>The field \<open>id\<close> of the interface is \<open>emp_id\<close> here; the search never reads it.\<close>

record Employee =
  emp_id :: int
  first_name :: string
  last_name :: string
  email :: string
  role :: string
  department :: string
  status :: string

record 'e FuzzyResult =
  employee :: 'e
  score :: number

definition fuzzyThreshold :: number where
  "fuzzyThreshold = lit (3 / 10)"

text \<open>The seven scores of one employee, in the order of the array literal.\<close>

definition scores :: "string \<Rightarrow> Employee \<Rightarrow> number list" where
  "scores term e =
     [fuzzyMatchScore term (first_name e),
      fuzzyMatchScore term (last_name e),
      fuzzyMatchScore term (email e),
      fuzzyMatchScore term (role e),
      fuzzyMatchScore term (department e),
      fuzzyMatchScore term (status e),
      fuzzyMatchScore term (first_name e @ '' '' @ last_name e)]"

definition bestScore :: "string \<Rightarrow> Employee \<Rightarrow> number" where
  "bestScore term e = Math_max (scores term e)"

text \<open>The \<open>for ... of\<close> loop, with \<open>results\<close> as its state.\<close>

fun searchLoop :: "string \<Rightarrow> Employee list \<Rightarrow> Employee FuzzyResult list \<Rightarrow> Employee FuzzyResult list" where
  "searchLoop term [] results = results"
| "searchLoop term (e # es) results =
     (if num_ge (bestScore term e) fuzzyThreshold
      then searchLoop term es (results @ [\<lparr>employee = e, score = bestScore term e\<rparr>])
      else searchLoop term es results)"

text \<open>
  \<open>Array.prototype.sort\<close> with a comparator. The language requires the sort to be
  stable; with a comparator that is a total preorder the result is then determined, and
  insertion from the right computes it. \<open>a\<close> goes behind \<open>b\<close> only when the comparator
  is positive on \<open>(a, b)\<close>; a \<open>NaN\<close> from the comparator counts as zero.
\<close>

fun insertSorted :: "('a \<Rightarrow> 'a \<Rightarrow> number) \<Rightarrow> 'a \<Rightarrow> 'a list \<Rightarrow> 'a list" where
  "insertSorted cmp a [] = [a]"
| "insertSorted cmp a (b # bs) =
     (if num_gt (cmp a b) (Fin 0) then b # insertSorted cmp a bs else a # b # bs)"

definition arraySort :: "('a \<Rightarrow> 'a \<Rightarrow> number) \<Rightarrow> 'a list \<Rightarrow> 'a list" where
  "arraySort cmp xs = foldr (insertSorted cmp) xs []"

definition byScoreDesc :: "'e FuzzyResult \<Rightarrow> 'e FuzzyResult \<Rightarrow> number" where
  "byScoreDesc a b = num_sub (score b) (score a)"

definition searchEmployees :: "Employee list \<Rightarrow> string \<Rightarrow> Employee list" where
  "searchEmployees employees searchTerm =
     (if trim searchTerm = [] then employees
      else let term = trim searchTerm;
               results = searchLoop term employees []
           in map employee (arraySort byScoreDesc results))"

subsection \<open>Records as they are at run time\<close>

text \<open>
  The field types of \<open>Employee\<close> exist at compile time only. At run time a field holds
  any value; \<open>target.toLowerCase()\<close> throws a \<open>TypeError\<close> unless \<open>target\<close> is a
  string (a missing field reads as \<open>undefined\<close>), and a template literal converts its
  parts with \<open>ToString\<close>.
\<close>

datatype jsval = JString string | JUndefined | JNull | JBool bool

datatype error = TypeError

record RawEmployee =
  raw_id :: int
  raw_first_name :: jsval
  raw_last_name :: jsval
  raw_email :: jsval
  raw_role :: jsval
  raw_department :: jsval
  raw_status :: jsval

fun ToString :: "jsval \<Rightarrow> string" where
  "ToString (JString s) = s"
| "ToString JUndefined = ''undefined''"
| "ToString JNull = ''null''"
| "ToString (JBool b) = (if b then ''true'' else ''false'')"

fun fuzzyMatchScoreRT :: "string \<Rightarrow> jsval \<Rightarrow> error + number" where
  "fuzzyMatchScoreRT term (JString target) = Inr (fuzzyMatchScore term target)"
| "fuzzyMatchScoreRT term _ = Inl TypeError"

text \<open>The elements of the array literal are evaluated in order; the first throw ends it.\<close>

fun collect :: "(error + 'a) list \<Rightarrow> error + 'a list" where
  "collect [] = Inr []"
| "collect (x # xs) =
     (case x of Inl e \<Rightarrow> Inl e
      | Inr v \<Rightarrow> (case collect xs of Inl e \<Rightarrow> Inl e | Inr vs \<Rightarrow> Inr (v # vs)))"

definition scoresRT :: "string \<Rightarrow> RawEmployee \<Rightarrow> error + number list" where
  "scoresRT term e =
     collect
       [fuzzyMatchScoreRT term (raw_first_name e),
        fuzzyMatchScoreRT term (raw_last_name e),
        fuzzyMatchScoreRT term (raw_email e),
        fuzzyMatchScoreRT term (raw_role e),
        fuzzyMatchScoreRT term (raw_department e),
        fuzzyMatchScoreRT term (raw_status e),
        fuzzyMatchScoreRT term
          (JString (ToString (raw_first_name e) @ '' '' @ ToString (raw_last_name e)))]"

fun searchLoopRT :: "string \<Rightarrow> RawEmployee list \<Rightarrow> RawEmployee FuzzyResult list
    \<Rightarrow> error + RawEmployee FuzzyResult list" where
  "searchLoopRT term [] results = Inr results"
| "searchLoopRT term (e # es) results =
     (case scoresRT term e of
        Inl err \<Rightarrow> Inl err
      | Inr ss \<Rightarrow>
          if num_ge (Math_max ss) fuzzyThreshold
          then searchLoopRT term es (results @ [\<lparr>employee = e, score = Math_max ss\<rparr>])
          else searchLoopRT term es results)"

definition searchEmployeesRT :: "RawEmployee list \<Rightarrow> string \<Rightarrow> error + RawEmployee list" where
  "searchEmployeesRT employees searchTerm =
     (if trim searchTerm = [] then Inr employees
      else case searchLoopRT (trim searchTerm) employees [] of
             Inl err \<Rightarrow> Inl err
           | Inr results \<Rightarrow> Inr (map employee (arraySort byScoreDesc results)))"

fun isString :: "jsval \<Rightarrow> bool" where
  "isString (JString _) = True"
| "isString _ = False"

definition wellTyped :: "RawEmployee \<Rightarrow> bool" where
  "wellTyped e =
     (isString (raw_first_name e) \<and> isString (raw_last_name e) \<and> isString (raw_email e)
      \<and> isString (raw_role e) \<and> isString (raw_department e) \<and> isString (raw_status e))"

text \<open>A record of the declared type as it is at run time.\<close>

definition toRaw :: "Employee \<Rightarrow> RawEmployee" where
  "toRaw e =
     \<lparr>raw_id = emp_id e, raw_first_name = JString (first_name e),
      raw_last_name = JString (last_name e), raw_email = JString (email e),
      raw_role = JString (role e), raw_department = JString (department e),
      raw_status = JString (status e)\<rparr>"

definition toRawResult :: "Employee FuzzyResult \<Rightarrow> RawEmployee FuzzyResult" where
  "toRawResult r = \<lparr>employee = toRaw (employee r), score = score r\<rparr>"

subsection \<open>Example data\<close>

definition emp_jon :: Employee where
  "emp_jon = \<lparr>emp_id = 1, first_name = ''Jon'', last_name = ''Snow'', email = ''jsnow@corp.io'',
               role = ''Engineer'', department = ''Engineering'', status = ''Active''\<rparr>"

definition emp_john :: Employee where
  "emp_john = \<lparr>emp_id = 2, first_name = ''John'', last_name = ''Doe'', email = ''jdoe@corp.io'',
                role = ''Manager'', department = ''Sales'', status = ''Active''\<rparr>"

definition emp_xena :: Employee where
  "emp_xena = \<lparr>emp_id = 3, first_name = ''Xena'', last_name = ''Quill'', email = ''xq@corp.io'',
                role = ''Clerk'', department = ''Legal'', status = ''Inactive''\<rparr>"

definition raw_jon :: RawEmployee where
  "raw_jon = \<lparr>raw_id = 1, raw_first_name = JString ''Jon'', raw_last_name = JString ''Snow'',
               raw_email = JString ''jsnow@corp.io'', raw_role = JString ''Engineer'',
               raw_department = JString ''Engineering'', raw_status = JString ''Active''\<rparr>"

definition raw_nodept :: RawEmployee where
  "raw_nodept = \<lparr>raw_id = 2, raw_first_name = JString ''John'', raw_last_name = JString ''Doe'',
                  raw_email = JString ''jdoe@corp.io'', raw_role = JString ''Manager'',
                  raw_department = JUndefined, raw_status = JString ''Active''\<rparr>"

text \<open>
  Two records whose scores for the query \<open>abcdef\<close> are both 27/40 in exact arithmetic
  (\<open>0.5 + 0.3 * 7/12\<close>, with \<open>7/6 = 1/2 + 2/3 = 1/3 + 5/6\<close>) but differ as doubles.
\<close>

definition emp_tieA :: Employee where
  "emp_tieA = \<lparr>emp_id = 4, first_name = ''abcdxxefxxxx'', last_name = ''zzz'', email = ''zzz'',
                role = ''zzz'', department = ''zzz'', status = ''zzz''\<rparr>"

definition emp_tieB :: Employee where
  "emp_tieB = \<lparr>emp_id = 5, first_name = ''abcdexfxxxxxxxxxxx'', last_name = ''zzz'',
                email = ''zzz'', role = ''zzz'', department = ''zzz'', status = ''zzz''\<rparr>"

subsection \<open>Names used in the statements\<close>

text \<open>
  \<open>maxRun\<close> is the final \<open>maxConsecutive\<close> of the subsequence loop.
  \<open>greedyFlags search text\<close> marks, character by character, the text characters that
  the leftmost match of the search term uses (the match stops with the search term), and
  \<open>lrun c flags\<close> is the longest run of marks in \<open>flags\<close>, a run at the front counting
  \<open>c\<close> more. \<open>subseqValue\<close> is the value \<open>subsequenceMatchScore\<close> computes when all
  characters were found, \<open>editScore\<close> the value of the last tier of \<open>fuzzyMatchScore\<close>
  on lowercased strings, and \<open>recordScore\<close> the rational behind \<open>bestScore\<close>.
\<close>

definition maxRun :: "string \<Rightarrow> string \<Rightarrow> nat" where
  "maxRun search text = snd (subsequenceLoop search text 0 0 0 0)"

fun greedyFlags :: "string \<Rightarrow> string \<Rightarrow> bool list" where
  "greedyFlags [] text = []"
| "greedyFlags (c # cs) [] = []"
| "greedyFlags (c # cs) (x # xs) =
     (if x = c then True # greedyFlags cs xs else False # greedyFlags (c # cs) xs)"

fun lrun :: "nat \<Rightarrow> bool list \<Rightarrow> nat" where
  "lrun c [] = c"
| "lrun c (True # bs) = lrun (c + 1) bs"
| "lrun c (False # bs) = max c (lrun 0 bs)"

definition subseqValue :: "string \<Rightarrow> string \<Rightarrow> rat" where
  "subseqValue search text =
     fdiv (fadd (fdiv (fnat (length search)) (fnat (length text)))
                (fdiv (fnat (maxRun search text)) (fnat (length search)))) 2"

definition editScore :: "string \<Rightarrow> string \<Rightarrow> rat" where
  "editScore search text =
     (let similarity = fsub 1 (fdiv (fnat (levenshteinDistance search text))
                                    (fnat (max (length search) (length text))))
      in if round64 (4 / 10) < similarity then fmul similarity (round64 (7 / 10)) else 0)"

definition recordScore :: "string \<Rightarrow> Employee \<Rightarrow> rat" where
  "recordScore term e = val (bestScore term e)"

definition fieldsOf :: "Employee \<Rightarrow> string set" where
  "fieldsOf e =
     {first_name e, last_name e, email e, role e, department e, status e,
      first_name e @ '' '' @ last_name e}"

section \<open>Properties of the rounding\<close>

text \<open>
  Rounding is monotone, odd, keeps the sign, and lands on the grid of the binade:
  for \<open>2^e \<le> x < 2^(e+1)\<close> the result is an integer multiple of \<open>2^(e-52)\<close>.
\<close>

lemma rne_bounds: "\<lfloor>x\<rfloor> \<le> rne x" "rne x \<le> \<lfloor>x\<rfloor> + 1"
  by (simp_all add: rne_def Let_def)

lemma rne_of_int: "rne (of_int k) = k"
  by (simp add: rne_def)

lemma rne_mono: "x \<le> y \<Longrightarrow> rne x \<le> rne y"
proof (cases "\<lfloor>x\<rfloor> = \<lfloor>y\<rfloor>")
  case True
  assume "x \<le> y"
  then show ?thesis unfolding rne_def Let_def True by auto
next
  case False
  assume "x \<le> y"
  then have "\<lfloor>x\<rfloor> \<le> \<lfloor>y\<rfloor>" by (rule floor_mono)
  with False have "\<lfloor>x\<rfloor> + 1 \<le> \<lfloor>y\<rfloor>" by simp
  with rne_bounds(2) [of x] rne_bounds(1) [of y] show ?thesis by linarith
qed

lemma pow2_nat: "0 \<le> e \<Longrightarrow> (2::rat) powi e = 2 ^ nat e"
  by (rule power_int_nonneg_exp)

lemma expo_raw_bounds:
  assumes "0 < x" and "quotient_of x = (p, q)"
  shows "2 powi (bitlen p - bitlen q - 1) \<le> x" "x < 2 powi (bitlen p - bitlen q + 1)"
proof -
  have q: "0 < q" using assms(2) by (rule quotient_of_denom_pos)
  have x: "x = of_int p / of_int q" using assms(2) by (rule quotient_of_div)
  with assms(1) q have p: "0 < p" by (simp add: zero_less_divide_iff)
  have bp: "1 \<le> bitlen p" "1 \<le> bitlen q" using p q by (auto simp: bitlen_alt_def)
  from bitlen_bounds [OF p] have "(2::int) ^ nat (bitlen p - 1) \<le> p" "p < 2 ^ nat (bitlen p)" by auto
  then have "(of_int ((2::int) ^ nat (bitlen p - 1)) :: rat) \<le> of_int p"
    "(of_int p :: rat) < of_int (2 ^ nat (bitlen p))"
    by (simp_all only: of_int_le_iff of_int_less_iff)
  then have P: "(2::rat) powi (bitlen p - 1) \<le> of_int p" "(of_int p :: rat) < 2 powi bitlen p"
    using bp by (simp_all add: power_int_nonneg_exp)
  from bitlen_bounds [OF q] have "(2::int) ^ nat (bitlen q - 1) \<le> q" "q < 2 ^ nat (bitlen q)" by auto
  then have "(of_int ((2::int) ^ nat (bitlen q - 1)) :: rat) \<le> of_int q"
    "(of_int q :: rat) < of_int (2 ^ nat (bitlen q))"
    by (simp_all only: of_int_le_iff of_int_less_iff)
  then have Q: "(2::rat) powi (bitlen q - 1) \<le> of_int q" "(of_int q :: rat) < 2 powi bitlen q"
    using bp by (simp_all add: power_int_nonneg_exp)
  have qpos: "(0::rat) < of_int q" using q by simp
  have "2 powi (bitlen p - bitlen q - 1) * of_int q \<le> 2 powi (bitlen p - bitlen q - 1) * (2::rat) powi bitlen q"
    using Q(2) by (intro mult_left_mono) simp_all
  also have "\<dots> = 2 powi (bitlen p - 1)"
    by (simp add: power_int_add [symmetric])
  also have "\<dots> \<le> of_int p" by (rule P(1))
  finally show "2 powi (bitlen p - bitlen q - 1) \<le> x"
    unfolding x using qpos by (simp add: pos_le_divide_eq)
  have "of_int p < (2::rat) powi bitlen p" by (rule P(2))
  also have "\<dots> = 2 powi (bitlen p - bitlen q + 1) * 2 powi (bitlen q - 1)"
    by (simp add: power_int_add [symmetric])
  also have "\<dots> \<le> 2 powi (bitlen p - bitlen q + 1) * of_int q"
    using Q(1) by (intro mult_left_mono) simp_all
  finally show "x < 2 powi (bitlen p - bitlen q + 1)"
    unfolding x using qpos by (simp add: pos_divide_less_eq)
qed

lemma expo_bounds:
  assumes "0 < x"
  shows "2 powi expo x \<le> x" "x < 2 powi (expo x + 1)"
proof -
  obtain p q where pq: "quotient_of x = (p, q)" by (cases "quotient_of x")
  note b = expo_raw_bounds [OF assms pq]
  show "2 powi expo x \<le> x" using b(1) by (simp add: expo_def pq Let_def)
  show "x < 2 powi (expo x + 1)" using b(2) by (auto simp: expo_def pq Let_def)
qed

lemma pow2_less_imp: "(2::rat) powi a < 2 powi b \<Longrightarrow> a < b"
proof (rule ccontr)
  assume l: "(2::rat) powi a < 2 powi b" and "\<not> a < b"
  then have "b \<le> a" by simp
  then have "(2::rat) powi b \<le> 2 powi a" by (intro power_int_increasing) simp_all
  with l show False by simp
qed

lemma expo_unique:
  assumes "0 < x" and "2 powi e \<le> x" and "x < 2 powi (e + 1)"
  shows "expo x = e"
proof -
  have "(2::rat) powi expo x < 2 powi (e + 1)"
    using expo_bounds(1) [OF assms(1)] assms(3) by (rule le_less_trans)
  then have 1: "expo x < e + 1" by (rule pow2_less_imp)
  have "(2::rat) powi e < 2 powi (expo x + 1)"
    using assms(2) expo_bounds(2) [OF assms(1)] by (rule le_less_trans)
  then have "e < expo x + 1" by (rule pow2_less_imp)
  with 1 show ?thesis by simp
qed

lemma round64_pos_eq:
  "0 < x \<Longrightarrow> round64 x = of_int (rne (x / 2 powi (expo x - 52))) * 2 powi (expo x - 52)"
  by (simp add: round64_def Let_def)

lemma scaled_bounds:
  assumes "0 < x"
  shows "2 ^ 52 \<le> x / 2 powi (expo x - 52)" "x / 2 powi (expo x - 52) \<le> 2 ^ 53"
proof -
  have u: "(0::rat) < 2 powi (expo x - 52)" by simp
  have "2 ^ 52 * 2 powi (expo x - 52) = (2::rat) powi expo x"
    using power_int_add [of "2::rat" 52 "expo x - 52"] by simp
  with expo_bounds(1) [OF assms] show "2 ^ 52 \<le> x / 2 powi (expo x - 52)"
    using u by (simp add: pos_le_divide_eq)
  have "2 ^ 53 * 2 powi (expo x - 52) = (2::rat) powi (expo x + 1)"
    using power_int_add [of "2::rat" 53 "expo x - 52"] by (simp add: add.commute)
  with expo_bounds(2) [OF assms] show "x / 2 powi (expo x - 52) \<le> 2 ^ 53"
    using u by (simp add: pos_divide_le_eq)
qed

lemma rne_scaled_bounds:
  assumes "0 < x"
  shows "2 ^ 52 \<le> rne (x / 2 powi (expo x - 52))" "rne (x / 2 powi (expo x - 52)) \<le> 2 ^ 53"
proof -
  have "rne (of_int (2 ^ 52)) \<le> rne (x / 2 powi (expo x - 52))"
    using scaled_bounds(1) [OF assms] by (intro rne_mono) simp
  then show "2 ^ 52 \<le> rne (x / 2 powi (expo x - 52))" by (simp only: rne_of_int)
  have "rne (x / 2 powi (expo x - 52)) \<le> rne (of_int (2 ^ 53))"
    using scaled_bounds(2) [OF assms] by (intro rne_mono) simp
  then show "rne (x / 2 powi (expo x - 52)) \<le> 2 ^ 53" by (simp only: rne_of_int)
qed

lemma round64_pos_bounds:
  assumes "0 < x"
  shows "2 powi expo x \<le> round64 x" "round64 x \<le> 2 powi (expo x + 1)"
proof -
  let ?u = "(2::rat) powi (expo x - 52)" and ?k = "rne (x / 2 powi (expo x - 52))"
  have u: "0 < ?u" by simp
  have lo: "(2::rat) ^ 52 \<le> of_int ?k"
    using rne_scaled_bounds(1) [OF assms] by (metis of_int_le_iff of_int_numeral of_int_power)
  have hi: "of_int ?k \<le> (2::rat) ^ 53"
    using rne_scaled_bounds(2) [OF assms] by (metis of_int_le_iff of_int_numeral of_int_power)
  have "(2::rat) powi expo x = 2 ^ 52 * ?u"
    using power_int_add [of "2::rat" 52 "expo x - 52"] by simp
  also have "\<dots> \<le> of_int ?k * ?u" using lo u by (intro mult_right_mono) simp_all
  finally show "2 powi expo x \<le> round64 x" by (simp only: round64_pos_eq [OF assms])
  have "of_int ?k * ?u \<le> 2 ^ 53 * ?u" using hi u by (intro mult_right_mono) simp_all
  also have "\<dots> = (2::rat) powi (expo x + 1)"
    using power_int_add [of "2::rat" 53 "expo x - 52"] by (simp add: add.commute)
  finally show "round64 x \<le> 2 powi (expo x + 1)" by (simp only: round64_pos_eq [OF assms])
qed

lemma round64_pos:
  assumes "0 < x"
  shows "0 < round64 x"
proof -
  have "(0::rat) < 2 powi expo x" by simp
  with round64_pos_bounds(1) [OF assms] show ?thesis by linarith
qed

lemma round64_zero: "round64 0 = 0"
  by (simp add: round64_def)

lemma round64_minus: "round64 (- x) = - round64 x"
  by (simp add: round64_def Let_def)

lemma round64_mono_pos:
  assumes "0 < x" and "x \<le> y"
  shows "round64 x \<le> round64 y"
proof -
  have y: "0 < y" using assms by simp
  have "(2::rat) powi expo x < 2 powi (expo y + 1)"
    using expo_bounds(1) [OF assms(1)] assms(2) expo_bounds(2) [OF y] by linarith
  then have le: "expo x < expo y + 1" by (rule pow2_less_imp)
  show ?thesis
  proof (cases "expo x = expo y")
    case True
    let ?u = "(2::rat) powi (expo y - 52)"
    have u: "0 < ?u" by simp
    have "x / ?u \<le> y / ?u" using assms(2) u by (simp add: divide_right_mono)
    then have "rne (x / ?u) \<le> rne (y / ?u)" by (rule rne_mono)
    then have "(of_int (rne (x / ?u)) :: rat) \<le> of_int (rne (y / ?u))" by simp
    then have "of_int (rne (x / ?u)) * ?u \<le> of_int (rne (y / ?u)) * ?u"
      using u by (intro mult_right_mono) simp_all
    then show ?thesis
      by (simp only: round64_pos_eq [OF assms(1)] round64_pos_eq [OF y] True)
  next
    case False
    with le have "expo x + 1 \<le> expo y" by simp
    then have "(2::rat) powi (expo x + 1) \<le> 2 powi expo y"
      by (intro power_int_increasing) simp_all
    with round64_pos_bounds(2) [OF assms(1)] round64_pos_bounds(1) [OF y]
    show ?thesis by linarith
  qed
qed

lemma round64_mono:
  assumes "x \<le> y"
  shows "round64 x \<le> round64 y"
proof -
  consider (pos) "0 < x" | (zero) "x = 0" | (neg) "x < 0" by linarith
  then show ?thesis
  proof cases
    case pos
    then show ?thesis using assms by (rule round64_mono_pos)
  next
    case zero
    show ?thesis
    proof (cases "y = 0")
      case True
      with zero show ?thesis by simp
    next
      case False
      with zero assms have "0 < y" by simp
      then have "0 < round64 y" by (rule round64_pos)
      with zero show ?thesis by (simp add: round64_zero)
    qed
  next
    case neg
    then have nx: "0 < - x" by simp
    then have rx: "round64 x < 0" using round64_pos [OF nx] by (simp add: round64_minus)
    consider (ypos) "0 < y" | (yzero) "y = 0" | (yneg) "y < 0" by linarith
    then show ?thesis
    proof cases
      case ypos
      then have "0 < round64 y" by (rule round64_pos)
      with rx show ?thesis by simp
    next
      case yzero
      with rx show ?thesis by (simp add: round64_zero)
    next
      case yneg
      then have ny: "0 < - y" by simp
      have "round64 (- y) \<le> round64 (- x)" using ny assms by (intro round64_mono_pos) simp_all
      then show ?thesis by (simp add: round64_minus)
    qed
  qed
qed

lemma round64_nonneg: "0 \<le> x \<Longrightarrow> 0 \<le> round64 x"
  using round64_mono [of 0 x] by (simp add: round64_zero)

lemma round64_pos_iff: "0 < round64 x \<longleftrightarrow> 0 < x"
proof
  assume "0 < round64 x"
  show "0 < x"
  proof (rule ccontr)
    assume "\<not> 0 < x"
    then have "x \<le> 0" by simp
    then have "round64 x \<le> round64 0" by (rule round64_mono)
    with \<open>0 < round64 x\<close> show False by (simp add: round64_zero)
  qed
qed (rule round64_pos)

lemma round64_grid:
  assumes "2 powi e \<le> x" and "x < 2 powi (e + 1)"
  shows "round64 x = of_int (rne (x / 2 powi (e - 52))) * 2 powi (e - 52)"
proof -
  have "(0::rat) < 2 powi e" by simp
  with assms(1) have x: "0 < x" by linarith
  from expo_unique [OF x assms] round64_pos_eq [OF x] show ?thesis by simp
qed

lemma round64_consts:
  "round64 1 = 1" "round64 2 = 2" "round64 (1 / 2) = 1 / 2" "round64 (1 / 4) = 1 / 4"
  by code_simp+

lemma lit_consts:
  "0 < round64 (3 / 10)" "round64 (3 / 10) \<le> 1 / 2" "1 / 4 \<le> round64 (3 / 10)"
  "round64 (5 / 10) = 1 / 2"
  "0 \<le> round64 (9 / 10)" "round64 (9 / 10) \<le> 1" "28 / 100 < round64 (9 / 10)"
  "0 \<le> round64 (85 / 100)" "round64 (85 / 100) \<le> 1" "28 / 100 < round64 (85 / 100)"
  "0 < round64 (7 / 10)" "round64 (7 / 10) \<le> 1"
  "3 / 10 < round64 (9 / 10)" "3 / 10 < round64 (85 / 100)"
  by code_simp+

lemma round64_le_fix: "x \<le> y \<Longrightarrow> round64 y = y \<Longrightarrow> round64 x \<le> y"
  using round64_mono [of x y] by simp

lemma round64_ge_fix: "y \<le> x \<Longrightarrow> round64 y = y \<Longrightarrow> y \<le> round64 x"
  using round64_mono [of y x] by simp

lemma fnat_pos: "0 < n \<Longrightarrow> 0 < fnat n"
  by (simp add: fnat_def round64_pos)

lemma fnat_nonneg: "0 \<le> fnat n"
  by (simp add: fnat_def round64_nonneg)

lemma fnat_eq_0_iff: "fnat n = 0 \<longleftrightarrow> n = 0"
proof
  assume "fnat n = 0"
  then show "n = 0" using fnat_pos [of n] by (cases "n = 0") simp_all
qed (simp add: fnat_def round64_zero)

lemma fnat_mono: "m \<le> n \<Longrightarrow> fnat m \<le> fnat n"
  by (simp add: fnat_def round64_mono)

lemma fdiv_nonneg: "0 \<le> a \<Longrightarrow> 0 \<le> b \<Longrightarrow> 0 \<le> fdiv a b"
  by (simp add: fdiv_def round64_nonneg)

lemma fdiv_pos: "0 < a \<Longrightarrow> 0 < b \<Longrightarrow> 0 < fdiv a b"
  by (simp add: fdiv_def round64_pos)

lemma fdiv_le_1: "0 \<le> a \<Longrightarrow> a \<le> b \<Longrightarrow> 0 < b \<Longrightarrow> fdiv a b \<le> 1"
  unfolding fdiv_def by (rule round64_le_fix) (simp_all add: round64_consts)

section \<open>Properties of the scoring function\<close>

subsection \<open>Strings and the subsequence loop\<close>

lemma length_toLowerCase: "length (toLowerCase s) = length s"
  by (simp add: toLowerCase_def)

lemma toLowerCase_Nil_iff: "toLowerCase s = [] \<longleftrightarrow> s = []"
  by (simp add: toLowerCase_def)

lemma startsWith_Nil: "startsWith text []"
  by (simp add: startsWith_def)

lemma str_includes_Nil: "str_includes text []"
  by (cases "text") (simp_all add: startsWith_def)

text \<open>The two string tests are the prefix and the contiguous-sublist relation.\<close>

lemma startsWith_prefix: "startsWith t s \<longleftrightarrow> prefix s t"
proof
  assume "startsWith t s"
  then have "t = s @ drop (length s) t"
    unfolding startsWith_def by (metis append_take_drop_id)
  then show "prefix s t" by (rule prefixI)
next
  assume "prefix s t"
  then obtain zs where "t = s @ zs" by (rule prefixE)
  then show "startsWith t s" by (simp add: startsWith_def)
qed

lemma str_includes_sublist: "str_includes t s \<longleftrightarrow> sublist s t"
  by (induction t) (simp_all add: startsWith_prefix sublist_Cons_right)

text \<open>
  The loop keeps \<open>searchIndex\<close> within the search term and \<open>maxConsecutive\<close> below
  \<open>searchIndex\<close>, and it finds every character exactly when the rest of the search
  term is a subsequence of the rest of the text.
\<close>

lemma loop_fst_le:
  "si \<le> length s \<Longrightarrow> fst (subsequenceLoop s t i si c m) \<le> length s"
proof (induction s t i si c m rule: subsequenceLoop.induct)
  case (1 s t i si c m)
  show ?case
    using "1.IH" "1.prems"
    by (subst subsequenceLoop.simps) auto
qed

lemma loop_snd_le_fst:
  "c \<le> si \<Longrightarrow> m \<le> si \<Longrightarrow>
   snd (subsequenceLoop s t i si c m) \<le> fst (subsequenceLoop s t i si c m)"
proof (induction s t i si c m rule: subsequenceLoop.induct)
  case (1 s t i si c m)
  show ?case
    using "1.IH" "1.prems"
    by (subst (1 2) subsequenceLoop.simps) auto
qed

lemma loop_subseq:
  "si \<le> length s \<Longrightarrow>
   (fst (subsequenceLoop s t i si c m) = length s
      \<longleftrightarrow> subseq (drop si s) (drop i t))"
proof (induction s t i si c m rule: subsequenceLoop.induct)
  case (1 s t i si c m)
  show ?case
  proof (cases "i < length t \<and> si < length s")
    case False
    have r: "fst (subsequenceLoop s t i si c m) = si"
      using False by (subst subsequenceLoop.simps) auto
    have "si = length s \<longleftrightarrow> subseq (drop si s) (drop i t)"
    proof (cases "si < length s")
      case True
      with False have "drop i t = []" and "drop si s \<noteq> []" by simp_all
      with True show ?thesis by (auto dest: list_emb_Nil2)
    next
      case False
      with "1.prems" show ?thesis by simp
    qed
    with r show ?thesis by simp
  next
    case True
    then have dt: "drop i t = t ! i # drop (Suc i) t"
      and ds: "drop si s = s ! si # drop (Suc si) s"
      by (simp_all add: Cons_nth_drop_Suc)
    show ?thesis
    proof (cases "t ! i = s ! si")
      case eq: True
      have "fst (subsequenceLoop s t i si c m)
            = fst (subsequenceLoop s t (i + 1) (si + 1) (c + 1) (max m (c + 1)))"
        using True eq by (subst subsequenceLoop.simps) simp
      also have "\<dots> = length s \<longleftrightarrow> subseq (drop (si + 1) s) (drop (i + 1) t)"
        using "1.IH"(1) True eq by simp
      finally show ?thesis using dt ds eq by simp
    next
      case ne: False
      have "fst (subsequenceLoop s t i si c m)
            = fst (subsequenceLoop s t (i + 1) si 0 m)"
        using True ne by (subst subsequenceLoop.simps) simp
      also have "\<dots> = length s \<longleftrightarrow> subseq (drop si s) (drop (i + 1) t)"
        using "1.IH"(2) True ne "1.prems" by simp
      finally show ?thesis using dt ds ne by (simp add: subseq_Cons2_neq)
    qed
  qed
qed

lemma maxRun_le: "maxRun s t \<le> length s"
proof -
  have "snd (subsequenceLoop s t 0 0 0 0) \<le> fst (subsequenceLoop s t 0 0 0 0)"
    by (rule loop_snd_le_fst) simp_all
  also have "\<dots> \<le> length s"
    by (rule loop_fst_le) simp
  finally show ?thesis by (simp add: maxRun_def)
qed

lemma loop_found_iff: "fst (subsequenceLoop s t 0 0 0 0) = length s \<longleftrightarrow> subseq s t"
  using loop_subseq [of 0 s t 0 0 0] by simp

lemma subscore_subseq:
  assumes "s \<noteq> []" and "subseq s t"
  shows "subsequenceMatchScore s t = Fin (subseqValue s t)"
proof -
  obtain a b where ab: "subsequenceLoop s t 0 0 0 0 = (a, b)" by (cases "subsequenceLoop s t 0 0 0 0")
  have a: "a = length s" using loop_found_iff [of s t] assms(2) ab by simp
  have b: "b = maxRun s t" using ab by (simp add: maxRun_def)
  have "length s \<le> length t" using assms(2) by (rule list_emb_length)
  with assms(1) have "length t \<noteq> 0" "length s \<noteq> 0" by auto
  then show ?thesis
    by (simp add: subsequenceMatchScore_def ab a b num_of_nat_def subseqValue_def fnat_eq_0_iff
        fdiv_def fadd_def)
qed

lemma subscore_not_subseq:
  assumes "\<not> subseq s t"
  shows "subsequenceMatchScore s t = Fin 0"
proof -
  obtain a b where ab: "subsequenceLoop s t 0 0 0 0 = (a, b)" by (cases "subsequenceLoop s t 0 0 0 0")
  have "a \<noteq> length s" using loop_found_iff [of s t] assms ab by simp
  then show ?thesis by (simp add: subsequenceMatchScore_def ab)
qed

lemma subscore_pos:
  assumes "s \<noteq> []" and "subseq s t"
  shows "0 < subseqValue s t"
proof -
  have "length s \<le> length t" using assms(2) by (rule list_emb_length)
  with assms(1) have "0 < length t" "0 < length s" by auto
  then have "0 < fdiv (fnat (length s)) (fnat (length t))" by (intro fdiv_pos fnat_pos)
  moreover have "0 \<le> fdiv (fnat (maxRun s t)) (fnat (length s))"
    by (intro fdiv_nonneg fnat_nonneg)
  ultimately have "0 < fdiv (fnat (length s)) (fnat (length t))
                       + fdiv (fnat (maxRun s t)) (fnat (length s))"
    by (rule add_pos_nonneg)
  then have "0 < fadd (fdiv (fnat (length s)) (fnat (length t)))
                      (fdiv (fnat (maxRun s t)) (fnat (length s)))"
    unfolding fadd_def by (rule round64_pos)
  then show ?thesis unfolding subseqValue_def by (intro fdiv_pos) simp_all
qed

lemma subscore_le_1:
  assumes "s \<noteq> []" and "subseq s t"
  shows "subseqValue s t \<le> 1"
proof -
  have le: "length s \<le> length t" using assms(2) by (rule list_emb_length)
  with assms(1) have pos: "0 < length t" "0 < length s" by auto
  have "fdiv (fnat (length s)) (fnat (length t)) \<le> 1"
    using le pos by (intro fdiv_le_1 fnat_nonneg fnat_mono fnat_pos)
  moreover have "fdiv (fnat (maxRun s t)) (fnat (length s)) \<le> 1"
    using maxRun_le [of s t] pos by (intro fdiv_le_1 fnat_nonneg fnat_mono fnat_pos)
  ultimately have "fdiv (fnat (length s)) (fnat (length t))
                   + fdiv (fnat (maxRun s t)) (fnat (length s)) \<le> 2"
    by linarith
  then have "fadd (fdiv (fnat (length s)) (fnat (length t)))
                  (fdiv (fnat (maxRun s t)) (fnat (length s))) \<le> 2"
    unfolding fadd_def by (rule round64_le_fix) (rule round64_consts)
  then have "fadd (fdiv (fnat (length s)) (fnat (length t)))
                  (fdiv (fnat (maxRun s t)) (fnat (length s))) / 2 \<le> 1"
    by simp
  then show ?thesis
    unfolding subseqValue_def fdiv_def by (rule round64_le_fix) (rule round64_consts)
qed

lemma fuzzy_exact:
  "toLowerCase t = toLowerCase q \<Longrightarrow> fuzzyMatchScore q t = Fin 1"
  by (simp add: fuzzyMatchScore_def lit_def round64_consts)

lemma fuzzy_includes:
  "toLowerCase t \<noteq> toLowerCase q \<Longrightarrow> str_includes (toLowerCase t) (toLowerCase q)
   \<Longrightarrow> fuzzyMatchScore q t = Fin (round64 (9 / 10))"
  by (simp add: fuzzyMatchScore_def lit_def)

lemma fuzzy_prefix:
  "toLowerCase t \<noteq> toLowerCase q \<Longrightarrow> \<not> str_includes (toLowerCase t) (toLowerCase q)
   \<Longrightarrow> startsWith (toLowerCase t) (toLowerCase q) \<or> startsWith (toLowerCase q) (toLowerCase t)
   \<Longrightarrow> fuzzyMatchScore q t = Fin (round64 (85 / 100))"
  by (simp add: fuzzyMatchScore_def lit_def)

lemma fuzzy_subseq:
  assumes "toLowerCase t \<noteq> toLowerCase q"
    and "\<not> str_includes (toLowerCase t) (toLowerCase q)"
    and "\<not> startsWith (toLowerCase t) (toLowerCase q)"
    and "\<not> startsWith (toLowerCase q) (toLowerCase t)"
    and "subseq (toLowerCase q) (toLowerCase t)"
  shows "fuzzyMatchScore q t =
           Fin (fadd (round64 (5 / 10))
                     (fmul (subseqValue (toLowerCase q) (toLowerCase t)) (round64 (3 / 10))))"
proof -
  have ne: "toLowerCase q \<noteq> []" using assms(2) str_includes_Nil by auto
  show ?thesis
    using assms(1-4) subscore_pos [OF ne assms(5)]
    by (simp add: fuzzyMatchScore_def subscore_subseq [OF ne assms(5)] Let_def lit_def)
qed

lemma num_similarity:
  "n \<noteq> 0 \<Longrightarrow>
   num_sub (Fin 1) (num_div (num_of_nat d) (num_of_nat n)) = Fin (fsub 1 (fdiv (fnat d) (fnat n)))"
  by (simp add: num_sub_def num_of_nat_def fnat_eq_0_iff fadd_def fsub_def)

lemma fuzzy_edit:
  assumes "toLowerCase t \<noteq> toLowerCase q"
    and "\<not> str_includes (toLowerCase t) (toLowerCase q)"
    and "\<not> startsWith (toLowerCase t) (toLowerCase q)"
    and "\<not> startsWith (toLowerCase q) (toLowerCase t)"
    and "\<not> subseq (toLowerCase q) (toLowerCase t)"
  shows "fuzzyMatchScore q t = Fin (editScore (toLowerCase q) (toLowerCase t))"
proof -
  have ne: "toLowerCase q \<noteq> []" using assms(2) str_includes_Nil by auto
  show ?thesis
    using assms(1-4) ne
    by (simp add: fuzzyMatchScore_def subscore_not_subseq [OF assms(5)] editScore_def
        num_similarity Let_def lit_def)
qed

subsection \<open>The bounds of the edit-distance and the subsequence tier\<close>

lemma c4_value: "round64 (4 / 10) = 7205759403792794 / 18014398509481984"
  by code_simp

lemma c4_succ_times_c7:
  "28 / 100 < round64 (7205759403792795 / 18014398509481984 * round64 (7 / 10))"
  by code_simp

lemma above_c4:
  assumes "round64 (4 / 10) < round64 x"
  shows "7205759403792795 / 18014398509481984 \<le> round64 x"
proof -
  consider (hi) "1 / 2 \<le> x" | (lo) "x < 1 / 4" | (mid) "1 / 4 \<le> x" "x < 1 / 2" by linarith
  then show ?thesis
  proof cases
    case hi
    then have "1 / 2 \<le> round64 x" by (rule round64_ge_fix) (rule round64_consts)
    then show ?thesis by linarith
  next
    case lo
    then have "round64 x \<le> 1 / 4" by (intro round64_le_fix round64_consts) simp
    with assms c4_value show ?thesis by linarith
  next
    case mid
    have p: "(2::rat) powi (- 2) = 1 / 4" "(2::rat) powi (- 2 + 1) = 1 / 2"
      "(2::rat) powi (- 2 - 52) = 1 / 18014398509481984"
      by (simp_all add: power_int_minus_divide)
    define k where "k = rne (x / 2 powi (- 2 - 52))"
    have "round64 x = of_int k * 2 powi (- 2 - 52)"
      unfolding k_def by (rule round64_grid) (simp_all only: p mid)
    then have r: "round64 x = of_int k / 18014398509481984" by (simp only: p)
    with assms c4_value
    have "(7205759403792794 :: rat) / 18014398509481984 < of_int k / 18014398509481984"
      by linarith
    then have "(7205759403792794 :: rat) < of_int k" by (simp add: divide_less_cancel)
    then have "(of_int 7205759403792794 :: rat) < of_int k" by simp
    then have "7205759403792794 < k" by (simp only: of_int_less_iff)
    then have "7205759403792795 \<le> k" by simp
    then have "(of_int 7205759403792795 :: rat) \<le> of_int k" by (simp only: of_int_le_iff)
    then have "(7205759403792795 :: rat) \<le> of_int k" by simp
    then show ?thesis unfolding r by (simp add: divide_right_mono)
  qed
qed

lemma editScore_range: "editScore s t = 0 \<or> (28 / 100 < editScore s t \<and> editScore s t \<le> 1)"
proof -
  define x where "x = 1 - fdiv (fnat (levenshteinDistance s t)) (fnat (max (length s) (length t)))"
  have "0 \<le> fdiv (fnat (levenshteinDistance s t)) (fnat (max (length s) (length t)))"
    by (intro fdiv_nonneg fnat_nonneg)
  then have "x \<le> 1" by (simp add: x_def)
  then have le1: "round64 x \<le> 1" by (rule round64_le_fix) (rule round64_consts)
  have e: "editScore s t = (if round64 (4 / 10) < round64 x then fmul (round64 x) (round64 (7 / 10)) else 0)"
    by (simp add: editScore_def fsub_def x_def Let_def)
  show ?thesis
  proof (cases "round64 (4 / 10) < round64 x")
    case False
    with e show ?thesis by simp
  next
    case True
    from above_c4 [OF True] lit_consts(11)
    have "7205759403792795 / 18014398509481984 * round64 (7 / 10) \<le> round64 x * round64 (7 / 10)"
      by (intro mult_right_mono) linarith+
    then have "round64 (7205759403792795 / 18014398509481984 * round64 (7 / 10))
               \<le> round64 (round64 x * round64 (7 / 10))"
      by (rule round64_mono)
    with c4_succ_times_c7 have lo: "28 / 100 < fmul (round64 x) (round64 (7 / 10))"
      unfolding fmul_def by linarith
    have "0 \<le> round64 x" using True c4_value by linarith
    with le1 lit_consts(11,12) have "round64 x * round64 (7 / 10) \<le> 1 * 1"
      by (intro mult_mono) simp_all
    then have "fmul (round64 x) (round64 (7 / 10)) \<le> 1"
      unfolding fmul_def by (intro round64_le_fix round64_consts) simp
    with lo e True show ?thesis by simp
  qed
qed

lemma tier4_bounds:
  assumes "0 < v" and "v \<le> 1"
  shows "1 / 2 \<le> fadd (round64 (5 / 10)) (fmul v (round64 (3 / 10)))"
    and "fadd (round64 (5 / 10)) (fmul v (round64 (3 / 10))) \<le> 1"
proof -
  have "0 \<le> v * round64 (3 / 10)" using assms(1) lit_consts(1) by simp
  then have m0: "0 \<le> fmul v (round64 (3 / 10))" unfolding fmul_def by (rule round64_nonneg)
  have "v * round64 (3 / 10) \<le> 1 * (1 / 2)"
    using assms lit_consts(1,2) by (intro mult_mono) simp_all
  then have m1: "fmul v (round64 (3 / 10)) \<le> 1 / 2"
    unfolding fmul_def by (intro round64_le_fix round64_consts) simp
  show "1 / 2 \<le> fadd (round64 (5 / 10)) (fmul v (round64 (3 / 10)))"
    unfolding fadd_def lit_consts(4) using m0 by (intro round64_ge_fix round64_consts) simp
  show "fadd (round64 (5 / 10)) (fmul v (round64 (3 / 10))) \<le> 1"
    unfolding fadd_def lit_consts(4) using m1 by (intro round64_le_fix round64_consts) simp
qed

lemma fuzzy_range:
  "\<exists>r. fuzzyMatchScore q t = Fin r \<and> (r = 0 \<or> 28 / 100 < r) \<and> r \<le> 1"
proof -
  let ?s = "toLowerCase q" and ?x = "toLowerCase t"
  consider (exact) "?x = ?s"
    | (incl) "?x \<noteq> ?s" "str_includes ?x ?s"
    | (pre) "?x \<noteq> ?s" "\<not> str_includes ?x ?s" "startsWith ?x ?s \<or> startsWith ?s ?x"
    | (sub) "?x \<noteq> ?s" "\<not> str_includes ?x ?s" "\<not> startsWith ?x ?s" "\<not> startsWith ?s ?x"
        "subseq ?s ?x"
    | (edit) "?x \<noteq> ?s" "\<not> str_includes ?x ?s" "\<not> startsWith ?x ?s" "\<not> startsWith ?s ?x"
        "\<not> subseq ?s ?x"
    by blast
  then show ?thesis
  proof cases
    case exact
    then have "fuzzyMatchScore q t = Fin 1" by (rule fuzzy_exact)
    then show ?thesis by simp
  next
    case incl
    then have "fuzzyMatchScore q t = Fin (round64 (9 / 10))" by (rule fuzzy_includes)
    with lit_consts(6,7) show ?thesis by blast
  next
    case pre
    then have "fuzzyMatchScore q t = Fin (round64 (85 / 100))" by (rule fuzzy_prefix)
    with lit_consts(9,10) show ?thesis by blast
  next
    case sub
    have ne: "?s \<noteq> []" using sub(2) str_includes_Nil by auto
    note b = tier4_bounds [OF subscore_pos [OF ne sub(5)] subscore_le_1 [OF ne sub(5)]]
    from b(1) have "28 / 100 < fadd (round64 (5 / 10)) (fmul (subseqValue ?s ?x) (round64 (3 / 10)))"
      by linarith
    with fuzzy_subseq [OF sub] b(2) show ?thesis by blast
  next
    case edit
    have "editScore ?s ?x = 0 \<or> 28 / 100 < editScore ?s ?x" "editScore ?s ?x \<le> 1"
      using editScore_range [of ?s ?x] by auto
    with fuzzy_edit [OF edit] show ?thesis by blast
  qed
qed

subsection \<open>The loop computes the longest run of the leftmost match\<close>

lemma lrun_ge: "c \<le> lrun c bs"
proof (induction bs arbitrary: c)
  case Nil
  show ?case by simp
next
  case (Cons b bs)
  show ?case
  proof (cases b)
    case True
    with Cons [of "c + 1"] show ?thesis by simp
  next
    case False
    then show ?thesis by simp
  qed
qed

lemma loop_lrun:
  "si \<le> length s \<Longrightarrow> c \<le> m \<Longrightarrow>
   snd (subsequenceLoop s t i si c m) = max m (lrun c (greedyFlags (drop si s) (drop i t)))"
proof (induction s t i si c m rule: subsequenceLoop.induct)
  case (1 s t i si c m)
  show ?case
  proof (cases "i < length t \<and> si < length s")
    case False
    have r: "snd (subsequenceLoop s t i si c m) = m"
      using False by (subst subsequenceLoop.simps) auto
    have "greedyFlags (drop si s) (drop i t) = []"
    proof (cases "si < length s")
      case True
      with False have "drop i t = []" by simp
      moreover from True obtain y ys where "drop si s = y # ys"
        by (cases "drop si s") simp_all
      ultimately show ?thesis by simp
    next
      case False
      then have "drop si s = []" by simp
      then show ?thesis by simp
    qed
    with r "1.prems" show ?thesis by simp
  next
    case True
    then have dt: "drop i t = t ! i # drop (Suc i) t"
      and ds: "drop si s = s ! si # drop (Suc si) s"
      by (simp_all add: Cons_nth_drop_Suc)
    show ?thesis
    proof (cases "t ! i = s ! si")
      case eq: True
      have "snd (subsequenceLoop s t i si c m)
            = snd (subsequenceLoop s t (i + 1) (si + 1) (c + 1) (max m (c + 1)))"
        using True eq by (subst subsequenceLoop.simps) simp
      also have "\<dots> = max (max m (c + 1)) (lrun (c + 1) (greedyFlags (drop (si + 1) s) (drop (i + 1) t)))"
        using "1.IH"(1) True eq by simp
      also have "\<dots> = max m (lrun (c + 1) (greedyFlags (drop (si + 1) s) (drop (i + 1) t)))"
        using lrun_ge [of "c + 1" "greedyFlags (drop (si + 1) s) (drop (i + 1) t)"] by simp
      finally show ?thesis using dt ds eq by simp
    next
      case ne: False
      have "snd (subsequenceLoop s t i si c m) = snd (subsequenceLoop s t (i + 1) si 0 m)"
        using True ne by (subst subsequenceLoop.simps) simp
      also have "\<dots> = max m (lrun 0 (greedyFlags (drop si s) (drop (i + 1) t)))"
        using "1.IH"(2) True ne "1.prems" by simp
      finally show ?thesis using dt ds ne "1.prems" by simp
    qed
  qed
qed

lemma maxRun_lrun: "maxRun s t = lrun 0 (greedyFlags s t)"
  using loop_lrun [of 0 s 0 0 t 0] by (simp add: maxRun_def)

lemma lrun_prefix: "prefix (replicate k True) bs \<Longrightarrow> c + k \<le> lrun c bs"
proof (induction bs arbitrary: c k)
  case Nil
  then show ?case by simp
next
  case (Cons b bs)
  show ?case
  proof (cases k)
    case 0
    then show ?thesis using lrun_ge [of c "b # bs"] by simp
  next
    case (Suc k')
    with Cons.prems have b: "b = True" and p: "prefix (replicate k' True) bs" by simp_all
    from Cons.IH [OF p, of "c + 1"] show ?thesis by (simp add: b Suc)
  qed
qed

lemma lrun_sublist_le: "sublist (replicate n True) bs \<Longrightarrow> n \<le> lrun c bs"
proof (induction bs arbitrary: c)
  case Nil
  then show ?case by simp
next
  case (Cons b bs)
  from Cons.prems consider (pre) "prefix (replicate n True) (b # bs)"
    | (rest) "sublist (replicate n True) bs"
    by (auto simp: sublist_Cons_right)
  then show ?case
  proof cases
    case pre
    from lrun_prefix [OF pre, of c] show ?thesis by simp
  next
    case rest
    show ?thesis
    proof (cases b)
      case True
      with Cons.IH [OF rest, of "c + 1"] show ?thesis by simp
    next
      case False
      with Cons.IH [OF rest, of 0] show ?thesis by simp
    qed
  qed
qed

lemma lrun_attained:
  "(\<exists>k. lrun c bs = c + k \<and> prefix (replicate k True) bs)
   \<or> sublist (replicate (lrun c bs) True) bs"
proof (induction bs arbitrary: c)
  case Nil
  show ?case by simp
next
  case (Cons b bs)
  show ?case
  proof (cases b)
    case True
    from Cons.IH [of "c + 1"] show ?thesis
    proof
      assume "\<exists>k. lrun (c + 1) bs = c + 1 + k \<and> prefix (replicate k True) bs"
      then obtain k where "lrun (c + 1) bs = c + 1 + k" "prefix (replicate k True) bs" by blast
      then have "lrun c (b # bs) = c + Suc k \<and> prefix (replicate (Suc k) True) (b # bs)"
        using True by simp
      then show ?thesis by blast
    next
      assume "sublist (replicate (lrun (c + 1) bs) True) bs"
      then show ?thesis using True by (simp add: sublist_Cons_right)
    qed
  next
    case False
    show ?thesis
    proof (cases "lrun 0 bs \<le> c")
      case True
      with False have "lrun c (b # bs) = c + 0 \<and> prefix (replicate 0 True) (b # bs)"
        by simp
      then show ?thesis by blast
    next
      case big: False
      then have l: "lrun c (b # bs) = lrun 0 bs" using False by simp
      from Cons.IH [of 0] have "sublist (replicate (lrun 0 bs) True) bs"
        by (auto intro: prefix_imp_sublist)
      then show ?thesis unfolding l by (simp add: sublist_Cons_right)
    qed
  qed
qed

lemma maxRun_is_run: "sublist (replicate (maxRun s t) True) (greedyFlags s t)"
  using lrun_attained [of 0 "greedyFlags s t"]
  by (auto simp: maxRun_lrun intro: prefix_imp_sublist)

lemma maxRun_longest: "sublist (replicate n True) (greedyFlags s t) \<Longrightarrow> n \<le> maxRun s t"
  unfolding maxRun_lrun by (rule lrun_sublist_le)

lemma flags_spell:
  "subseq s t \<Longrightarrow> map fst (filter snd (zip t (greedyFlags s t))) = s"
proof (induction s t rule: greedyFlags.induct)
  case (1 t)
  show ?case by simp
next
  case (2 c cs)
  then show ?case by simp
next
  case (3 c cs x xs)
  show ?case
  proof (cases "x = c")
    case True
    with "3.prems" have "subseq cs xs" by simp
    with "3.IH"(1) True show ?thesis by simp
  next
    case False
    with "3.prems" have "subseq (c # cs) xs" by (simp add: subseq_Cons2_neq)
    with "3.IH"(2) False show ?thesis by simp
  qed
qed

lemma maxRun_ge_1:
  assumes "s \<noteq> []" and "subseq s t"
  shows "1 \<le> maxRun s t"
proof -
  from flags_spell [OF assms(2)] assms(1)
  have "filter snd (zip t (greedyFlags s t)) \<noteq> []" by auto
  then obtain a b where "(a, b) \<in> set (zip t (greedyFlags s t))" "b"
    by (auto simp: filter_empty_conv)
  then have "True \<in> set (greedyFlags s t)"
    using set_zip_rightD [of a b t "greedyFlags s t"] by simp
  then obtain ys zs where "greedyFlags s t = ys @ True # zs" by (auto dest: split_list)
  then have "sublist (replicate 1 True) (greedyFlags s t)"
    by (auto simp: sublist_def)
  then show ?thesis by (rule maxRun_longest)
qed

lemma round64_fix_consts:
  "round64 134217728 = 134217728" "round64 9007199254740992 = 9007199254740992"
  "round64 (1 / 134217728) = 1 / 134217728" "round64 (1 / 67108864) = 1 / 67108864"
  "round64 (1 / 268435456) = 1 / 268435456" "round64 (1 / 1073741824) = 1 / 1073741824"
  "round64 (1 / 2 + 1 / 1073741824) = 1 / 2 + 1 / 1073741824"
  "round64 (round64 (3 / 10)) = round64 (3 / 10)"
  "round64 (1 / 2 + round64 (3 / 10)) = round64 (8 / 10)"
  by code_simp+

lemma subseqValue_lower:
  assumes "s \<noteq> []" and "subseq s t" and "length t < 2 ^ 53"
  shows "1 / 268435456 \<le> subseqValue s t"
proof -
  let ?base = "fdiv (fnat (length s)) (fnat (length t))"
  let ?bonus = "fdiv (fnat (maxRun s t)) (fnat (length s))"
  have le: "length s \<le> length t" using assms(2) by (rule list_emb_length)
  with assms(1) have pos: "0 < length t" "0 < length s" by auto
  have b0: "0 \<le> ?base" "0 \<le> ?bonus" by (intro fdiv_nonneg fnat_nonneg)+
  have "1 / 134217728 \<le> ?base + ?bonus"
  proof (cases "length s \<le> 134217728")
    case True
    then have "fnat (length s) \<le> fnat 134217728" by (rule fnat_mono)
    then have u: "fnat (length s) \<le> 134217728"
      by (simp add: fnat_def round64_fix_consts)
    have "fnat 1 \<le> fnat (maxRun s t)" using maxRun_ge_1 [OF assms(1,2)] by (rule fnat_mono)
    then have l: "1 \<le> fnat (maxRun s t)" by (simp add: fnat_def round64_consts)
    have "1 / 134217728 \<le> fnat (maxRun s t) / fnat (length s)"
      using l u fnat_pos [OF pos(2)] by (intro frac_le) simp_all
    then have "1 / 134217728 \<le> ?bonus"
      unfolding fdiv_def by (rule round64_ge_fix) (rule round64_fix_consts)
    with b0 show ?thesis by linarith
  next
    case False
    then have "134217728 \<le> length s" by simp
    then have "fnat 134217728 \<le> fnat (length s)" by (rule fnat_mono)
    then have l: "134217728 \<le> fnat (length s)" by (simp add: fnat_def round64_fix_consts)
    have "length t \<le> 9007199254740992" using assms(3) by simp
    then have "fnat (length t) \<le> fnat 9007199254740992" by (rule fnat_mono)
    then have u: "fnat (length t) \<le> 9007199254740992"
      by (simp add: fnat_def round64_fix_consts)
    have "134217728 / 9007199254740992 \<le> fnat (length s) / fnat (length t)"
      using l u fnat_pos [OF pos(1)] by (intro frac_le) simp_all
    then have "1 / 67108864 \<le> fnat (length s) / fnat (length t)" by simp
    then have "1 / 67108864 \<le> ?base"
      unfolding fdiv_def by (rule round64_ge_fix) (rule round64_fix_consts)
    with b0 show ?thesis by linarith
  qed
  then have "1 / 134217728 \<le> fadd ?base ?bonus"
    unfolding fadd_def by (rule round64_ge_fix) (rule round64_fix_consts)
  then have "1 / 268435456 \<le> fadd ?base ?bonus / 2" by simp
  then show ?thesis
    unfolding subseqValue_def fdiv_def by (rule round64_ge_fix) (rule round64_fix_consts)
qed

lemma tier4_gt_half:
  assumes "1 / 268435456 \<le> v"
  shows "1 / 2 < fadd (round64 (5 / 10)) (fmul v (round64 (3 / 10)))"
proof -
  have "1 / 268435456 * (1 / 4) \<le> v * round64 (3 / 10)"
    using assms lit_consts(3) by (intro mult_mono) simp_all
  then have "1 / 1073741824 \<le> v * round64 (3 / 10)" by simp
  then have "1 / 1073741824 \<le> fmul v (round64 (3 / 10))"
    unfolding fmul_def by (rule round64_ge_fix) (rule round64_fix_consts)
  then have "1 / 2 + 1 / 1073741824 \<le> 1 / 2 + fmul v (round64 (3 / 10))" by simp
  then have "1 / 2 + 1 / 1073741824 \<le> fadd (round64 (5 / 10)) (fmul v (round64 (3 / 10)))"
    unfolding fadd_def lit_consts(4) by (rule round64_ge_fix) (rule round64_fix_consts)
  then show ?thesis by simp
qed

lemma tier4_le_c8:
  assumes "0 \<le> v" and "v \<le> 1"
  shows "fadd (round64 (5 / 10)) (fmul v (round64 (3 / 10))) \<le> round64 (8 / 10)"
proof -
  have "v * round64 (3 / 10) \<le> 1 * round64 (3 / 10)"
    using assms lit_consts(1) by (intro mult_right_mono) simp_all
  then have "v * round64 (3 / 10) \<le> round64 (3 / 10)" by simp
  then have "fmul v (round64 (3 / 10)) \<le> round64 (3 / 10)"
    unfolding fmul_def by (rule round64_le_fix) (rule round64_fix_consts)
  then have "1 / 2 + fmul v (round64 (3 / 10)) \<le> 1 / 2 + round64 (3 / 10)" by simp
  then have "round64 (1 / 2 + fmul v (round64 (3 / 10))) \<le> round64 (1 / 2 + round64 (3 / 10))"
    by (rule round64_mono)
  then show ?thesis unfolding fadd_def lit_consts(4) round64_fix_consts(9) .
qed

lemma fuzzy_empty_target_val: "q \<noteq> [] \<Longrightarrow> val (fuzzyMatchScore q []) = round64 (85 / 100)"
proof -
  assume "q \<noteq> []"
  then have ne: "toLowerCase q \<noteq> []" by (simp add: toLowerCase_Nil_iff)
  have e: "toLowerCase [] = []" by (simp add: toLowerCase_def)
  have "fuzzyMatchScore q [] = Fin (round64 (85 / 100))"
    by (rule fuzzy_prefix) (use ne in \<open>simp_all add: e startsWith_def\<close>)
  then show ?thesis by simp
qed

lemma ev_abcd: "fuzzyMatchScore ''Abcd'' ''axbcd'' = Fin (412360840881111 / 562949953421312)"
proof -
  have l: "toLowerCase ''Abcd'' = ''abcd''" "toLowerCase ''axbcd'' = ''axbcd''" by code_simp+
  have h: "toLowerCase ''axbcd'' \<noteq> toLowerCase ''Abcd''"
    "\<not> str_includes (toLowerCase ''axbcd'') (toLowerCase ''Abcd'')"
    "\<not> startsWith (toLowerCase ''axbcd'') (toLowerCase ''Abcd'')"
    "\<not> startsWith (toLowerCase ''Abcd'') (toLowerCase ''axbcd'')"
    "subseq (toLowerCase ''Abcd'') (toLowerCase ''axbcd'')"
    unfolding l by (simp_all add: startsWith_def)
  have m: "maxRun ''abcd'' ''axbcd'' = 3" by code_simp
  have n: "length ''abcd'' = 4" "length ''axbcd'' = 5" by simp_all
  have a: "fdiv (fnat 4) (fnat 5) = 3602879701896397 / 4503599627370496" by code_simp
  have b: "fdiv (fnat 3) (fnat 4) = 3 / 4" by code_simp
  have c: "fadd (3602879701896397 / 4503599627370496) (3 / 4) = 6980579422424269 / 4503599627370496" by code_simp
  have d: "fdiv (6980579422424269 / 4503599627370496) 2 = 6980579422424269 / 9007199254740992" by code_simp
  have e: "fmul (6980579422424269 / 9007199254740992) (round64 (3 / 10)) = 4188347653454561 / 18014398509481984" by code_simp
  have f: "fadd (round64 (5 / 10)) (4188347653454561 / 18014398509481984) = 412360840881111 / 562949953421312" by code_simp
  have "subseqValue ''abcd'' ''axbcd'' = 6980579422424269 / 9007199254740992"
    unfolding subseqValue_def m n a b c d ..
  with fuzzy_subseq [OF h] show ?thesis unfolding l by (simp only: e f)
qed

section \<open>The claims about the scoring function\<close>

text \<open>
  C4. For all strings \<open>q\<close> and \<open>t\<close>, the empty ones included, \<open>fuzzyMatchScore\<close>
  returns a finite number between 0 and 1: the result is never \<open>NaN\<close> or an infinity,
  the values a division by zero would leave. No division by zero is evaluated on the
  way either: where the first three tiers do not fire, the search term is not empty, the
  value of \<open>subsequenceMatchScore\<close> is finite and the divisor \<open>maxLen\<close> is not zero.
  The function is total, its one unbounded loop having a termination proof, and no
  branch of it raises.
\<close>

theorem fuzzyMatchScore_finite_unit_interval:
  "(\<exists>r. fuzzyMatchScore q t = Fin r \<and> 0 \<le> r \<and> r \<le> 1)
   \<and> (toLowerCase t \<noteq> toLowerCase q
        \<and> \<not> str_includes (toLowerCase t) (toLowerCase q)
        \<and> \<not> startsWith (toLowerCase t) (toLowerCase q)
        \<and> \<not> startsWith (toLowerCase q) (toLowerCase t)
      \<longrightarrow> toLowerCase q \<noteq> []
          \<and> (\<exists>v. subsequenceMatchScore (toLowerCase q) (toLowerCase t) = Fin v)
          \<and> max (length (toLowerCase q)) (length (toLowerCase t)) \<noteq> 0)"
proof -
  let ?s = "toLowerCase q" and ?x = "toLowerCase t"
  have a: "\<exists>r. fuzzyMatchScore q t = Fin r \<and> 0 \<le> r \<and> r \<le> 1"
    using fuzzy_range [of q t] by auto
  have b: "?s \<noteq> [] \<and> (\<exists>v. subsequenceMatchScore ?s ?x = Fin v) \<and> max (length ?s) (length ?x) \<noteq> 0"
    if "\<not> str_includes ?x ?s"
  proof -
    have ne: "?s \<noteq> []" using that str_includes_Nil by auto
    have "\<exists>v. subsequenceMatchScore ?s ?x = Fin v"
    proof (cases "subseq ?s ?x")
      case True
      from subscore_subseq [OF ne True] show ?thesis by blast
    next
      case False
      from subscore_not_subseq [OF False] show ?thesis by blast
    qed
    with ne show ?thesis by simp
  qed
  from a b show ?thesis by blast
qed

theorem fuzzyMatchScore_finite_unit_interval_witness:
  "fuzzyMatchScore ''xyz123'' ''manager'' = Fin 0
   \<and> subsequenceMatchScore (toLowerCase ''xyz123'') (toLowerCase ''manager'') = Fin 0
   \<and> subsequenceMatchScore [] [] = NaN"
proof -
  have l: "toLowerCase ''xyz123'' = ''xyz123''" "toLowerCase ''manager'' = ''manager''"
    by code_simp+
  have h: "toLowerCase ''manager'' \<noteq> toLowerCase ''xyz123''
        \<and> \<not> str_includes (toLowerCase ''manager'') (toLowerCase ''xyz123'')
        \<and> \<not> startsWith (toLowerCase ''manager'') (toLowerCase ''xyz123'')
        \<and> \<not> startsWith (toLowerCase ''xyz123'') (toLowerCase ''manager'')"
    unfolding l by (simp add: startsWith_def)
  obtain v where v: "subsequenceMatchScore (toLowerCase ''xyz123'') (toLowerCase ''manager'') = Fin v"
    using fuzzyMatchScore_finite_unit_interval [of "''xyz123''" "''manager''"] h by blast
  have "subsequenceMatchScore ''xyz123'' ''manager'' = Fin 0" by code_simp
  with v have s: "subsequenceMatchScore (toLowerCase ''xyz123'') (toLowerCase ''manager'') = Fin 0"
    unfolding l by simp
  have "fuzzyMatchScore ''xyz123'' ''manager'' = Fin 0" by code_simp
  moreover have "subsequenceMatchScore [] [] = NaN" by code_simp
  ultimately show ?thesis using s by simp
qed

text \<open>
  C5. When the lowercased query is an ordered subsequence of the lowercased target and
  none of the exact, substring and prefix tiers fires, the score is
  \<open>0.5 + 0.3 * ((|q| / |t| + maxRun / |q|) / 2)\<close> as the doubles compute it, every
  operation rounding; it lies strictly above 0.5 and at most at 0.8. \<open>maxRun\<close> is the
  longest run of consecutively matched characters: the leftmost match marks the text
  characters that spell the query, \<open>maxRun\<close> marks in a row occur among them, and no
  more than \<open>maxRun\<close> do. The strict lower bound uses that a string is shorter than
  \<open>2^53\<close> characters, as every string of the language is.
\<close>

theorem fuzzyMatchScore_subsequence_tier:
  assumes "subseq (toLowerCase q) (toLowerCase t)"
    and "toLowerCase t \<noteq> toLowerCase q"
    and "\<not> str_includes (toLowerCase t) (toLowerCase q)"
    and "\<not> startsWith (toLowerCase t) (toLowerCase q)"
    and "\<not> startsWith (toLowerCase q) (toLowerCase t)"
    and "length (toLowerCase t) < 2 ^ 53"
  shows "\<exists>r. fuzzyMatchScore q t = Fin r
           \<and> r = fadd (round64 (5 / 10))
                   (fmul (round64 (3 / 10))
                      (fdiv (fadd (fdiv (fnat (length (toLowerCase q))) (fnat (length (toLowerCase t))))
                                  (fdiv (fnat (maxRun (toLowerCase q) (toLowerCase t)))
                                        (fnat (length (toLowerCase q)))))
                            2))
           \<and> 5 / 10 < r \<and> r \<le> round64 (8 / 10)
           \<and> sublist (replicate (maxRun (toLowerCase q) (toLowerCase t)) True)
                      (greedyFlags (toLowerCase q) (toLowerCase t))
           \<and> (\<forall>n. sublist (replicate n True) (greedyFlags (toLowerCase q) (toLowerCase t))
                  \<longrightarrow> n \<le> maxRun (toLowerCase q) (toLowerCase t))
           \<and> map fst (filter snd (zip (toLowerCase t) (greedyFlags (toLowerCase q) (toLowerCase t))))
               = toLowerCase q"
proof -
  let ?s = "toLowerCase q" and ?x = "toLowerCase t"
  let ?v = "subseqValue ?s ?x"
  let ?r = "fadd (round64 (5 / 10)) (fmul ?v (round64 (3 / 10)))"
  have ne: "?s \<noteq> []" using assms(3) str_includes_Nil by auto
  have v: "0 < ?v" "?v \<le> 1" "1 / 268435456 \<le> ?v"
    using subscore_pos [OF ne assms(1)] subscore_le_1 [OF ne assms(1)]
      subseqValue_lower [OF ne assms(1) assms(6)] by simp_all
  have 1: "fuzzyMatchScore q t = Fin ?r" by (rule fuzzy_subseq [OF assms(2-5) assms(1)])
  have 2: "?r = fadd (round64 (5 / 10))
                  (fmul (round64 (3 / 10))
                     (fdiv (fadd (fdiv (fnat (length ?s)) (fnat (length ?x)))
                                 (fdiv (fnat (maxRun ?s ?x)) (fnat (length ?s))))
                           2))"
    unfolding subseqValue_def fmul_def by (simp only: mult.commute)
  have 3: "5 / 10 < ?r" using tier4_gt_half [OF v(3)] by simp
  have 4: "?r \<le> round64 (8 / 10)" using v(1,2) by (intro tier4_le_c8) simp_all
  have 5: "sublist (replicate (maxRun ?s ?x) True) (greedyFlags ?s ?x)" by (rule maxRun_is_run)
  have 6: "\<forall>n. sublist (replicate n True) (greedyFlags ?s ?x) \<longrightarrow> n \<le> maxRun ?s ?x"
    using maxRun_longest by blast
  have 7: "map fst (filter snd (zip ?x (greedyFlags ?s ?x))) = ?s"
    using assms(1) by (rule flags_spell)
  show ?thesis
    by (intro exI [of _ ?r] conjI) (fact 1, fact 2, fact 3, fact 4, fact 5, fact 6, fact 7)
qed

theorem fuzzyMatchScore_subsequence_tier_witness:
  "fuzzyMatchScore ''Abcd'' ''axbcd'' = Fin (412360840881111 / 562949953421312)
   \<and> greedyFlags ''abcd'' ''axbcd'' = [True, False, True, True, True]
   \<and> 3 \<le> maxRun ''abcd'' ''axbcd''
   \<and> maxRun ''abcd'' ''axbcd'' = 3"
proof -
  have l: "toLowerCase ''Abcd'' = ''abcd''" "toLowerCase ''axbcd'' = ''axbcd''"
    by code_simp+
  have h: "subseq (toLowerCase ''Abcd'') (toLowerCase ''axbcd'')"
    "toLowerCase ''axbcd'' \<noteq> toLowerCase ''Abcd''"
    "\<not> str_includes (toLowerCase ''axbcd'') (toLowerCase ''Abcd'')"
    "\<not> startsWith (toLowerCase ''axbcd'') (toLowerCase ''Abcd'')"
    "\<not> startsWith (toLowerCase ''Abcd'') (toLowerCase ''axbcd'')"
    "length (toLowerCase ''axbcd'') < 2 ^ 53"
    unfolding l by (simp_all add: startsWith_def)
  have f: "greedyFlags ''abcd'' ''axbcd'' = [True, False, True, True, True]" by simp
  have longest: "\<forall>n. sublist (replicate n True) (greedyFlags ''abcd'' ''axbcd'')
                    \<longrightarrow> n \<le> maxRun ''abcd'' ''axbcd''"
    using fuzzyMatchScore_subsequence_tier [OF h] unfolding l by blast
  have "sublist (replicate 3 True) (greedyFlags ''abcd'' ''axbcd'')"
    unfolding f by (simp add: sublist_Cons_right numeral_3_eq_3)
  with longest have ge: "3 \<le> maxRun ''abcd'' ''axbcd''" by blast
  have m: "maxRun ''abcd'' ''axbcd'' = 3" by code_simp
  show ?thesis
    by (intro conjI) (fact ev_abcd, fact f, fact ge, fact m)
qed

text \<open>
  C6, as the code has it. For a non-empty query and the empty target the exact and
  the substring tier do not fire, but the prefix tier does: every string starts with the
  empty string. The score is 0.85; the subsequence and edit-distance tiers are not
  reached, so no division is evaluated.
\<close>

theorem fuzzyMatchScore_empty_target:
  assumes "q \<noteq> []"
  shows "toLowerCase [] \<noteq> toLowerCase q
         \<and> \<not> str_includes (toLowerCase []) (toLowerCase q)
         \<and> startsWith (toLowerCase q) (toLowerCase [])
         \<and> fuzzyMatchScore q [] = Fin (round64 (85 / 100))"
proof -
  have ne: "toLowerCase q \<noteq> []" using assms by (simp add: toLowerCase_Nil_iff)
  have e: "toLowerCase [] = []" by (simp add: toLowerCase_def)
  have "\<not> str_includes [] (toLowerCase q)" using ne by simp
  moreover have "startsWith (toLowerCase q) []" by (rule startsWith_Nil)
  ultimately show ?thesis
    using ne fuzzy_prefix [of "[]" q] unfolding e by auto
qed

theorem fuzzyMatchScore_empty_target_witness:
  "fuzzyMatchScore ''manager'' [] = Fin (round64 (85 / 100))"
proof -
  have "''manager'' \<noteq> []" by simp
  from fuzzyMatchScore_empty_target [OF this] show ?thesis by simp
qed

text \<open>
  The claim C6 as it is written fails: for the query \<open>a\<close> and the empty target the prefix
  tier fires and the score is 0.85, not the edit-distance score 0.
\<close>

theorem fuzzyMatchScore_empty_target_counterexample:
  "startsWith (toLowerCase ''a'') (toLowerCase [])
   \<and> fuzzyMatchScore ''a'' [] = Fin (round64 (85 / 100))
   \<and> editScore (toLowerCase ''a'') (toLowerCase []) = 0
   \<and> fuzzyMatchScore ''a'' [] \<noteq> Fin (editScore (toLowerCase ''a'') (toLowerCase []))"
proof -
  have l: "toLowerCase ''a'' = ''a''" "toLowerCase [] = []" by code_simp+
  have e: "editScore ''a'' [] = 0" by code_simp
  have f: "fuzzyMatchScore ''a'' [] = Fin (round64 (85 / 100))"
    by (rule fuzzy_prefix) (simp_all add: l startsWith_def)
  have "round64 (85 / 100) \<noteq> 0" using lit_consts(10) by linarith
  with f show ?thesis unfolding l by (simp add: e startsWith_def)
qed

text \<open>
  C10. Every score is exactly 0 or strictly greater than 0.28. A non-zero score below
  the threshold 0.3 comes from the edit-distance tier only: none of the four earlier
  tiers fired, and the score is the edit-distance value, strictly between 0.28 and 0.3.
\<close>

theorem fuzzyMatchScore_zero_or_above_28:
  "\<exists>r. fuzzyMatchScore q t = Fin r \<and> (r = 0 \<or> 28 / 100 < r)
     \<and> (r \<noteq> 0 \<and> r < 3 / 10 \<longrightarrow>
          toLowerCase t \<noteq> toLowerCase q
          \<and> \<not> str_includes (toLowerCase t) (toLowerCase q)
          \<and> \<not> startsWith (toLowerCase t) (toLowerCase q)
          \<and> \<not> startsWith (toLowerCase q) (toLowerCase t)
          \<and> \<not> subseq (toLowerCase q) (toLowerCase t)
          \<and> r = editScore (toLowerCase q) (toLowerCase t)
          \<and> 28 / 100 < r)"
proof -
  let ?s = "toLowerCase q" and ?x = "toLowerCase t"
  obtain r where r: "fuzzyMatchScore q t = Fin r" "r = 0 \<or> 28 / 100 < r"
    using fuzzy_range [of q t] by blast
  have "toLowerCase t \<noteq> toLowerCase q
          \<and> \<not> str_includes ?x ?s \<and> \<not> startsWith ?x ?s \<and> \<not> startsWith ?s ?x
          \<and> \<not> subseq ?s ?x \<and> r = editScore ?s ?x"
    if low: "r \<noteq> 0" "r < 3 / 10"
  proof -
    have 1: "?x \<noteq> ?s" using fuzzy_exact [of t q] r(1) low by auto
    have 2: "\<not> str_includes ?x ?s"
    proof
      assume "str_includes ?x ?s"
      from fuzzy_includes [OF 1 this] r(1) have "r = round64 (9 / 10)" by simp
      with lit_consts(13) low show False by linarith
    qed
    have 3: "\<not> (startsWith ?x ?s \<or> startsWith ?s ?x)"
    proof
      assume "startsWith ?x ?s \<or> startsWith ?s ?x"
      from fuzzy_prefix [OF 1 2 this] r(1) have "r = round64 (85 / 100)" by simp
      with lit_consts(14) low show False by linarith
    qed
    have ne: "?s \<noteq> []" using 2 str_includes_Nil by auto
    have 4: "\<not> subseq ?s ?x"
    proof
      assume sub: "subseq ?s ?x"
      from 3 have "\<not> startsWith ?x ?s" "\<not> startsWith ?s ?x" by simp_all
      from fuzzy_subseq [OF 1 2 this sub] r(1)
      have "r = fadd (round64 (5 / 10)) (fmul (subseqValue ?s ?x) (round64 (3 / 10)))" by simp
      with tier4_bounds(1) [OF subscore_pos [OF ne sub] subscore_le_1 [OF ne sub]] low
      show False by linarith
    qed
    from 3 have "\<not> startsWith ?x ?s" "\<not> startsWith ?s ?x" by simp_all
    from fuzzy_edit [OF 1 2 this 4] r(1) have "r = editScore ?s ?x" by simp
    with 1 2 3 4 show ?thesis by simp
  qed
  with r show ?thesis by auto
qed

theorem fuzzyMatchScore_zero_or_above_28_witness:
  "fuzzyMatchScore ''abcdefghijkl'' ''abcdexxxxxxx'' = Fin (2627099782632789 / 9007199254740992)
   \<and> \<not> subseq (toLowerCase ''abcdefghijkl'') (toLowerCase ''abcdexxxxxxx'')
   \<and> editScore (toLowerCase ''abcdefghijkl'') (toLowerCase ''abcdexxxxxxx'')
      = 2627099782632789 / 9007199254740992"
proof -
  have v: "fuzzyMatchScore ''abcdefghijkl'' ''abcdexxxxxxx''
           = Fin (2627099782632789 / 9007199254740992)"
    by code_simp
  obtain r where r: "fuzzyMatchScore ''abcdefghijkl'' ''abcdexxxxxxx'' = Fin r"
    and imp: "r \<noteq> 0 \<and> r < 3 / 10 \<longrightarrow>
          \<not> subseq (toLowerCase ''abcdefghijkl'') (toLowerCase ''abcdexxxxxxx'')
          \<and> r = editScore (toLowerCase ''abcdefghijkl'') (toLowerCase ''abcdexxxxxxx'')"
    using fuzzyMatchScore_zero_or_above_28 [of "''abcdefghijkl''" "''abcdexxxxxxx''"] by blast
  from v r have "r = 2627099782632789 / 9007199254740992" by simp
  with imp v show ?thesis by simp
qed


section \<open>Properties of the ranking\<close>

subsection \<open>The best score and the sort\<close>

lemma foldl_max2_Fin: "foldl max2 (Fin a) (map Fin rs) = Fin (fold max rs a)"
  by (induction rs arbitrary: a) (auto simp: max2_def max_def)

lemma Math_max_Fin: "rs \<noteq> [] \<Longrightarrow> Math_max (map Fin rs) = Fin (Max (set rs))"
proof (cases rs)
  case Nil
  then show "rs \<noteq> [] \<Longrightarrow> ?thesis" by simp
next
  case (Cons r rs')
  have "Math_max (map Fin rs) = foldl max2 (Fin r) (map Fin rs')"
    by (simp add: Math_max_def Cons max2_def)
  also have "\<dots> = Fin (fold max rs' r)" by (rule foldl_max2_Fin)
  also have "fold max rs' r = Max (set rs)" unfolding Cons by (rule Max.set_eq_fold [symmetric])
  finally show ?thesis .
qed

lemma fuzzy_Fin_val: "fuzzyMatchScore q t = Fin (val (fuzzyMatchScore q t))"
  using fuzzy_range [of q t] by auto

lemma scores_Fin: "scores term e = map Fin (map val (scores term e))"
  unfolding scores_def by (simp add: fuzzy_Fin_val [symmetric])

lemma scores_ne: "map val (scores term e) \<noteq> []"
  by (simp add: scores_def)

lemma bestScore_Fin: "bestScore term e = Fin (recordScore term e)"
proof -
  have "bestScore term e = Math_max (map Fin (map val (scores term e)))"
    unfolding bestScore_def using scores_Fin [of "term" e] by simp
  also have "\<dots> = Fin (Max (set (map val (scores term e))))"
    by (rule Math_max_Fin) (rule scores_ne)
  finally have "bestScore term e = Fin (Max (set (map val (scores term e))))" .
  then show ?thesis by (simp add: recordScore_def)
qed

lemma recordScore_Max:
  "recordScore term e =
     Max ((\<lambda>f. val (fuzzyMatchScore term f)) `
          {first_name e, last_name e, email e, role e, department e, status e,
           first_name e @ '' '' @ last_name e})"
proof -
  have "bestScore term e = Math_max (map Fin (map val (scores term e)))"
    unfolding bestScore_def using scores_Fin [of "term" e] by simp
  also have "\<dots> = Fin (Max (set (map val (scores term e))))"
    by (rule Math_max_Fin) (rule scores_ne)
  finally have m: "recordScore term e = Max (set (map val (scores term e)))"
    by (simp add: recordScore_def)
  have "set (map val (scores term e)) =
          (\<lambda>f. val (fuzzyMatchScore term f)) `
            {first_name e, last_name e, email e, role e, department e, status e,
             first_name e @ '' '' @ last_name e}"
    by (simp add: scores_def)
  with m show ?thesis by (simp only:)
qed

lemma keep_iff:
  "num_ge (bestScore term e) fuzzyThreshold \<longleftrightarrow> round64 (3 / 10) \<le> recordScore term e"
  by (auto simp: bestScore_Fin fuzzyThreshold_def lit_def)

lemma searchLoop_eq:
  "searchLoop term es acc =
     acc @ map (\<lambda>e. \<lparr>employee = e, score = bestScore term e\<rparr>)
             (filter (\<lambda>e. round64 (3 / 10) \<le> recordScore term e) es)"
  by (induction es arbitrary: acc) (simp_all add: keep_iff)

lemma insertSorted_insort:
  assumes "\<forall>r \<in> set (a # bs). score r = Fin (val (score r))"
  shows "insertSorted byScoreDesc a bs = insort_key (\<lambda>r. - val (score r)) a bs"
  using assms
proof (induction bs)
  case Nil
  show ?case by simp
next
  case (Cons b bs)
  have a: "score a = Fin (val (score a))" and b: "score b = Fin (val (score b))"
    using Cons.prems by simp_all
  have c: "num_gt (byScoreDesc a b) (Fin 0) \<longleftrightarrow> val (score a) < val (score b)"
    unfolding byScoreDesc_def num_sub_def
    by (subst a, subst b) (simp add: fadd_def round64_pos_iff)
  show ?case using Cons c by auto
qed

lemma arraySort_sort_key:
  assumes "\<forall>r \<in> set xs. score r = Fin (val (score r))"
  shows "arraySort byScoreDesc xs = sort_key (\<lambda>r. - val (score r)) xs"
  using assms
proof (induction xs)
  case Nil
  show ?case by (simp add: arraySort_def)
next
  case (Cons a xs)
  have ih: "arraySort byScoreDesc xs = sort_key (\<lambda>r. - val (score r)) xs"
    using Cons by simp
  have "arraySort byScoreDesc (a # xs) = insertSorted byScoreDesc a (arraySort byScoreDesc xs)"
    by (simp add: arraySort_def)
  also have "\<dots> = insort_key (\<lambda>r. - val (score r)) a (sort_key (\<lambda>r. - val (score r)) xs)"
    unfolding ih by (rule insertSorted_insort) (use Cons.prems in simp)
  finally show ?case by simp
qed

lemma insort_key_map:
  "insort_key f (g a) (map g xs) = map g (insort_key (\<lambda>x. f (g x)) a xs)"
  by (induction xs) simp_all

lemma sort_key_map: "sort_key f (map g xs) = map g (sort_key (\<lambda>x. f (g x)) xs)"
  by (induction xs) (simp_all add: insort_key_map)

lemma searchEmployees_eq:
  assumes "trim q \<noteq> []"
  shows "searchEmployees es q =
           sort_key (\<lambda>e. - recordScore (trim q) e)
             (filter (\<lambda>e. round64 (3 / 10) \<le> recordScore (trim q) e) es)"
proof -
  let ?mk = "\<lambda>e. \<lparr>employee = e, score = bestScore (trim q) e\<rparr>"
  let ?kept = "filter (\<lambda>e. round64 (3 / 10) \<le> recordScore (trim q) e) es"
  have fin: "\<forall>r \<in> set (map ?mk ?kept). score r = Fin (val (score r))"
    by (auto simp: bestScore_Fin)
  have "searchEmployees es q = map employee (arraySort byScoreDesc (map ?mk ?kept))"
    using assms by (simp add: searchEmployees_def searchLoop_eq Let_def)
  also have "\<dots> = map employee (sort_key (\<lambda>r. - val (score r)) (map ?mk ?kept))"
    by (simp only: arraySort_sort_key [OF fin])
  also have "\<dots> = map employee (map ?mk (sort_key (\<lambda>e. - val (score (?mk e))) ?kept))"
    by (simp only: sort_key_map)
  also have "\<dots> = sort_key (\<lambda>e. - recordScore (trim q) e) ?kept"
    by (simp add: o_def bestScore_Fin)
  finally show ?thesis .
qed

subsection \<open>The run-time layer\<close>

lemma collect_isl: "isl (collect xs) \<longleftrightarrow> (\<exists>x \<in> set xs. isl x)"
  by (induction xs) (auto split: sum.splits)

lemma fuzzyRT_isl: "isl (fuzzyMatchScoreRT term v) \<longleftrightarrow> \<not> isString v"
  by (cases v) simp_all

lemma scoresRT_isl: "isl (scoresRT term e) \<longleftrightarrow> \<not> wellTyped e"
  unfolding scoresRT_def collect_isl by (auto simp: fuzzyRT_isl wellTyped_def)

lemma searchLoopRT_isl:
  "isl (searchLoopRT term es acc) \<longleftrightarrow> (\<exists>e \<in> set es. \<not> wellTyped e)"
proof (induction es arbitrary: acc)
  case Nil
  show ?case by simp
next
  case (Cons e es)
  show ?case
  proof (cases "scoresRT term e")
    case (Inl err)
    then have "\<not> wellTyped e" using scoresRT_isl [of "term" e] by simp
    with Inl show ?thesis by simp
  next
    case (Inr ss)
    then have "wellTyped e" using scoresRT_isl [of "term" e] by simp
    with Inr Cons.IH show ?thesis by simp
  qed
qed

lemma searchEmployeesRT_isl:
  "isl (searchEmployeesRT es q) \<longleftrightarrow> trim q \<noteq> [] \<and> (\<exists>e \<in> set es. \<not> wellTyped e)"
proof (cases "trim q = []")
  case True
  then show ?thesis by (simp add: searchEmployeesRT_def)
next
  case False
  have "isl (searchEmployeesRT es q) \<longleftrightarrow> isl (searchLoopRT (trim q) es [])"
    using False by (simp add: searchEmployeesRT_def split: sum.splits)
  with False show ?thesis by (simp add: searchLoopRT_isl)
qed

lemma isl_TypeError: "isl x \<longleftrightarrow> x = Inl TypeError"
proof (cases x)
  case (Inl e)
  then show ?thesis by (cases e) simp
next
  case (Inr v)
  then show ?thesis by simp
qed

text \<open>On records of the declared type the run-time layer returns what \<open>searchEmployees\<close> does.\<close>

lemma scoresRT_toRaw: "scoresRT term (toRaw e) = Inr (scores term e)"
  by (simp add: scoresRT_def scores_def toRaw_def)

lemma searchLoopRT_toRaw:
  "searchLoopRT term (map toRaw es) (map toRawResult acc)
     = Inr (map toRawResult (searchLoop term es acc))"
proof (induction es arbitrary: acc)
  case Nil
  show ?case by simp
next
  case (Cons e es)
  have "map toRawResult acc @ [\<lparr>employee = toRaw e, score = bestScore term e\<rparr>]
        = map toRawResult (acc @ [\<lparr>employee = e, score = bestScore term e\<rparr>])"
    by (simp add: toRawResult_def)
  then show ?case
    using Cons.IH [of acc] Cons.IH [of "acc @ [\<lparr>employee = e, score = bestScore term e\<rparr>]"]
    by (simp add: scoresRT_toRaw bestScore_def)
qed

lemma insertSorted_toRaw:
  "insertSorted byScoreDesc (toRawResult a) (map toRawResult bs)
     = map toRawResult (insertSorted byScoreDesc a bs)"
  by (induction bs) (simp_all add: byScoreDesc_def toRawResult_def)

lemma arraySort_toRaw:
  "arraySort byScoreDesc (map toRawResult xs) = map toRawResult (arraySort byScoreDesc xs)"
  by (induction xs) (simp_all add: arraySort_def insertSorted_toRaw)

lemma searchEmployeesRT_toRaw:
  "searchEmployeesRT (map toRaw es) q = Inr (map toRaw (searchEmployees es q))"
proof (cases "trim q = []")
  case True
  then show ?thesis by (simp add: searchEmployeesRT_def searchEmployees_def)
next
  case False
  have "searchLoopRT (trim q) (map toRaw es) [] = Inr (map toRawResult (searchLoop (trim q) es []))"
    using searchLoopRT_toRaw [of "trim q" es "[]"] by simp
  then show ?thesis
    using False
    by (simp add: searchEmployeesRT_def searchEmployees_def Let_def arraySort_toRaw
        toRawResult_def o_def)
qed

lemma fuzzy_val_bounds: "0 \<le> val (fuzzyMatchScore q t)" "val (fuzzyMatchScore q t) \<le> 1"
  using fuzzy_range [of q t] by auto

lemma more_consts:
  "round64 (85 / 100) \<le> round64 (9 / 10)" "round64 (8 / 10) \<le> round64 (9 / 10)"
  "round64 (7 / 10) \<le> round64 (9 / 10)" "round64 (round64 (7 / 10)) = round64 (7 / 10)"
  "round64 (3 / 10) \<le> round64 (9 / 10)" "round64 (3 / 10) \<le> round64 (85 / 100)"
  "round64 (3 / 10) \<le> 1 / 2" "round64 (3 / 10) \<le> 1" "round64 (9 / 10) < 1"
  by code_simp+

lemma editScore_le_c7: "editScore s t \<le> round64 (7 / 10)"
proof -
  define x where "x = 1 - fdiv (fnat (levenshteinDistance s t)) (fnat (max (length s) (length t)))"
  have "0 \<le> fdiv (fnat (levenshteinDistance s t)) (fnat (max (length s) (length t)))"
    by (intro fdiv_nonneg fnat_nonneg)
  then have "x \<le> 1" by (simp add: x_def)
  then have le1: "round64 x \<le> 1" by (rule round64_le_fix) (rule round64_consts)
  have e: "editScore s t = (if round64 (4 / 10) < round64 x then fmul (round64 x) (round64 (7 / 10)) else 0)"
    by (simp add: editScore_def fsub_def x_def Let_def)
  show ?thesis
  proof (cases "round64 (4 / 10) < round64 x")
    case False
    with e lit_consts(11) show ?thesis by simp
  next
    case True
    have "round64 x * round64 (7 / 10) \<le> 1 * round64 (7 / 10)"
      using le1 lit_consts(11) by (intro mult_right_mono) simp_all
    then have "round64 x * round64 (7 / 10) \<le> round64 (7 / 10)" by simp
    then have "fmul (round64 x) (round64 (7 / 10)) \<le> round64 (7 / 10)"
      unfolding fmul_def by (rule round64_le_fix) (rule more_consts)
    with e True show ?thesis by simp
  qed
qed

lemma fuzzy_le_c9:
  assumes "toLowerCase t \<noteq> toLowerCase q"
  shows "val (fuzzyMatchScore q t) \<le> round64 (9 / 10)"
proof -
  let ?s = "toLowerCase q" and ?x = "toLowerCase t"
  consider (incl) "str_includes ?x ?s"
    | (pre) "\<not> str_includes ?x ?s" "startsWith ?x ?s \<or> startsWith ?s ?x"
    | (sub) "\<not> str_includes ?x ?s" "\<not> startsWith ?x ?s" "\<not> startsWith ?s ?x" "subseq ?s ?x"
    | (edit) "\<not> str_includes ?x ?s" "\<not> startsWith ?x ?s" "\<not> startsWith ?s ?x" "\<not> subseq ?s ?x"
    by blast
  then show ?thesis
  proof cases
    case incl
    with assms show ?thesis by (simp add: fuzzy_includes)
  next
    case pre
    with assms more_consts(1) show ?thesis by (simp add: fuzzy_prefix)
  next
    case sub
    have ne: "?s \<noteq> []" using sub(1) str_includes_Nil by auto
    have "0 \<le> subseqValue ?s ?x" using subscore_pos [OF ne sub(4)] by simp
    from tier4_le_c8 [OF this subscore_le_1 [OF ne sub(4)]] more_consts(2)
    have "fadd (round64 (5 / 10)) (fmul (subseqValue ?s ?x) (round64 (3 / 10))) \<le> round64 (9 / 10)"
      by linarith
    with fuzzy_subseq [OF assms sub] show ?thesis by simp
  next
    case edit
    from editScore_le_c7 [of ?s ?x] more_consts(3)
    have "editScore ?s ?x \<le> round64 (9 / 10)" by linarith
    with fuzzy_edit [OF assms edit] show ?thesis by simp
  qed
qed

lemma fuzzy_subseq_ge_half:
  assumes "toLowerCase t \<noteq> toLowerCase q"
    and "\<not> str_includes (toLowerCase t) (toLowerCase q)"
    and "\<not> startsWith (toLowerCase t) (toLowerCase q)"
    and "\<not> startsWith (toLowerCase q) (toLowerCase t)"
    and "subseq (toLowerCase q) (toLowerCase t)"
  shows "1 / 2 \<le> val (fuzzyMatchScore q t)"
proof -
  have ne: "toLowerCase q \<noteq> []" using assms(2) str_includes_Nil by auto
  from tier4_bounds(1) [OF subscore_pos [OF ne assms(5)] subscore_le_1 [OF ne assms(5)]]
    fuzzy_subseq [OF assms]
  show ?thesis by simp
qed

lemma fieldsOf_finite: "finite ((\<lambda>f. val (fuzzyMatchScore term f)) ` fieldsOf e)"
  by (simp add: fieldsOf_def)

lemma recordScore_fieldsOf:
  "recordScore term e = Max ((\<lambda>f. val (fuzzyMatchScore term f)) ` fieldsOf e)"
  unfolding fieldsOf_def by (rule recordScore_Max)

lemma recordScore_ge_field:
  "f \<in> fieldsOf e \<Longrightarrow> val (fuzzyMatchScore term f) \<le> recordScore term e"
  unfolding recordScore_fieldsOf by (intro Max_ge fieldsOf_finite) simp

lemma recordScore_le:
  assumes "\<And>f. f \<in> fieldsOf e \<Longrightarrow> val (fuzzyMatchScore term f) \<le> b"
  shows "recordScore term e \<le> b"
proof -
  have "fieldsOf e \<noteq> {}" by (simp add: fieldsOf_def)
  then show ?thesis
    unfolding recordScore_fieldsOf using assms
    by (subst Max_le_iff) (auto intro: fieldsOf_finite)
qed

lemma recordScore_le_1: "recordScore term e \<le> 1"
  by (rule recordScore_le) (rule fuzzy_val_bounds)

section \<open>Scores of the example records\<close>

lemma trim_examples:
  "trim '' jon '' = ''jon''" "trim ''jon'' = ''jon''" "trim ''act'' = ''act''"
  "trim ''abcdef'' = ''abcdef''" "trim [CHR '' '', CHR 0x09, CHR '' ''] = []"
  by code_simp+

lemma ev_xena_1: "fuzzyMatchScore ''jon'' ''Xena'' = Fin 0"
  by code_simp

lemma ev_xena_2: "fuzzyMatchScore ''jon'' ''Quill'' = Fin 0"
  by code_simp

lemma ev_xena_3: "fuzzyMatchScore ''jon'' ''xq@corp.io'' = Fin 0"
  by code_simp

lemma ev_xena_4: "fuzzyMatchScore ''jon'' ''Clerk'' = Fin 0"
  by code_simp

lemma ev_xena_5: "fuzzyMatchScore ''jon'' ''Legal'' = Fin 0"
  by code_simp

lemma ev_xena_6: "fuzzyMatchScore ''jon'' ''Inactive'' = Fin 0"
  by code_simp

lemma ev_xena_7: "fuzzyMatchScore ''jon'' ''Xena Quill'' = Fin 0"
  by code_simp

lemma ev_zzz: "fuzzyMatchScore ''abcdef'' ''zzz'' = Fin 0"
  by code_simp

lemma xena_score: "recordScore ''jon'' emp_xena = 0"
proof (rule antisym)
  show "recordScore ''jon'' emp_xena \<le> 0"
  proof (rule recordScore_le)
    fix f assume "f \<in> fieldsOf emp_xena"
    then show "val (fuzzyMatchScore ''jon'' f) \<le> 0"
      unfolding fieldsOf_def emp_xena_def
      by (auto simp: ev_xena_1 ev_xena_2 ev_xena_3 ev_xena_4 ev_xena_5 ev_xena_6 ev_xena_7)
  qed
  have "''Xena'' \<in> fieldsOf emp_xena" by (simp add: fieldsOf_def emp_xena_def)
  from recordScore_ge_field [OF this, of "''jon''"] show "0 \<le> recordScore ''jon'' emp_xena"
    by (simp add: ev_xena_1)
qed

lemma jon_score: "recordScore ''jon'' emp_jon = 1"
proof (rule antisym)
  show "recordScore ''jon'' emp_jon \<le> 1" by (rule recordScore_le_1)
  have l: "toLowerCase ''Jon'' = toLowerCase ''jon''" by code_simp
  have "''Jon'' \<in> fieldsOf emp_jon" by (simp add: fieldsOf_def emp_jon_def)
  from recordScore_ge_field [OF this, of "''jon''"] fuzzy_exact [OF l]
  show "1 \<le> recordScore ''jon'' emp_jon" by simp
qed

lemma john_score: "1 / 2 \<le> recordScore ''jon'' emp_john" "recordScore ''jon'' emp_john < 1"
proof -
  have l: "toLowerCase ''jon'' = ''jon''" "toLowerCase ''John'' = ''john''" by code_simp+
  have h: "toLowerCase ''John'' \<noteq> toLowerCase ''jon''"
    "\<not> str_includes (toLowerCase ''John'') (toLowerCase ''jon'')"
    "\<not> startsWith (toLowerCase ''John'') (toLowerCase ''jon'')"
    "\<not> startsWith (toLowerCase ''jon'') (toLowerCase ''John'')"
    "subseq (toLowerCase ''jon'') (toLowerCase ''John'')"
    unfolding l by (simp_all add: startsWith_def)
  have "''John'' \<in> fieldsOf emp_john" by (simp add: fieldsOf_def emp_john_def)
  from recordScore_ge_field [OF this, of "''jon''"] fuzzy_subseq_ge_half [OF h]
  show "1 / 2 \<le> recordScore ''jon'' emp_john" by linarith
  have ne: "\<forall>f \<in> fieldsOf emp_john. toLowerCase f \<noteq> toLowerCase ''jon''" by code_simp
  have "recordScore ''jon'' emp_john \<le> round64 (9 / 10)"
    by (rule recordScore_le) (use ne in \<open>auto intro: fuzzy_le_c9\<close>)
  with more_consts(9) show "recordScore ''jon'' emp_john < 1" by linarith
qed

lemma search_jon_example:
  assumes "trim q = ''jon''"
  shows "searchEmployees [emp_xena, emp_john, emp_jon] q = [emp_jon, emp_john]"
proof -
  have ne: "trim q \<noteq> []" using assms by simp
  have k: "\<not> round64 (3 / 10) \<le> recordScore ''jon'' emp_xena"
    "round64 (3 / 10) \<le> recordScore ''jon'' emp_john"
    "round64 (3 / 10) \<le> recordScore ''jon'' emp_jon"
    using lit_consts(1) more_consts(7,8) john_score(1) by (simp_all add: xena_score jon_score)
  have o: "\<not> 1 \<le> recordScore ''jon'' emp_john" using john_score(2) by simp
  show ?thesis
    unfolding searchEmployees_eq [OF ne] assms by (simp add: k o jon_score more_consts(8))
qed

lemma act_scores:
  "recordScore ''act'' emp_xena = round64 (9 / 10)"
  "recordScore ''act'' emp_john = round64 (9 / 10)"
  "recordScore ''act'' emp_jon = round64 (9 / 10)"
proof -
  have l: "toLowerCase ''act'' = ''act''" "toLowerCase ''Active'' = ''active''"
    "toLowerCase ''Inactive'' = ''inactive''"
    by code_simp+
  have a: "fuzzyMatchScore ''act'' ''Active'' = Fin (round64 (9 / 10))"
    by (rule fuzzy_includes) (simp_all add: l startsWith_def)
  have i: "fuzzyMatchScore ''act'' ''Inactive'' = Fin (round64 (9 / 10))"
    by (rule fuzzy_includes) (simp_all add: l startsWith_def)
  have nx: "\<forall>f \<in> fieldsOf emp_xena. toLowerCase f \<noteq> toLowerCase ''act''" by code_simp
  have nj: "\<forall>f \<in> fieldsOf emp_john. toLowerCase f \<noteq> toLowerCase ''act''" by code_simp
  have nn: "\<forall>f \<in> fieldsOf emp_jon. toLowerCase f \<noteq> toLowerCase ''act''" by code_simp
  show "recordScore ''act'' emp_xena = round64 (9 / 10)"
  proof (rule antisym)
    show "recordScore ''act'' emp_xena \<le> round64 (9 / 10)"
      by (rule recordScore_le) (use nx in \<open>auto intro: fuzzy_le_c9\<close>)
    have "''Inactive'' \<in> fieldsOf emp_xena" by (simp add: fieldsOf_def emp_xena_def)
    from recordScore_ge_field [OF this, of "''act''"]
    show "round64 (9 / 10) \<le> recordScore ''act'' emp_xena" by (simp add: i)
  qed
  show "recordScore ''act'' emp_john = round64 (9 / 10)"
  proof (rule antisym)
    show "recordScore ''act'' emp_john \<le> round64 (9 / 10)"
      by (rule recordScore_le) (use nj in \<open>auto intro: fuzzy_le_c9\<close>)
    have "''Active'' \<in> fieldsOf emp_john" by (simp add: fieldsOf_def emp_john_def)
    from recordScore_ge_field [OF this, of "''act''"]
    show "round64 (9 / 10) \<le> recordScore ''act'' emp_john" by (simp add: a)
  qed
  show "recordScore ''act'' emp_jon = round64 (9 / 10)"
  proof (rule antisym)
    show "recordScore ''act'' emp_jon \<le> round64 (9 / 10)"
      by (rule recordScore_le) (use nn in \<open>auto intro: fuzzy_le_c9\<close>)
    have "''Active'' \<in> fieldsOf emp_jon" by (simp add: fieldsOf_def emp_jon_def)
    from recordScore_ge_field [OF this, of "''act''"]
    show "round64 (9 / 10) \<le> recordScore ''act'' emp_jon" by (simp add: a)
  qed
qed

text \<open>
  The two tie records: 27/40 both in exact arithmetic, \<open>0.6749999999999999\<close> and
  \<open>0.675\<close> as doubles, so the sort puts the second record first.
\<close>

lemma ev_tieA: "fuzzyMatchScore ''abcdef'' ''abcdxxefxxxx'' = Fin (6079859496950169 / 9007199254740992)"
proof -
  have l: "toLowerCase ''abcdef'' = ''abcdef''" "toLowerCase ''abcdxxefxxxx'' = ''abcdxxefxxxx''" by code_simp+
  have h: "toLowerCase ''abcdxxefxxxx'' \<noteq> toLowerCase ''abcdef''"
    "\<not> str_includes (toLowerCase ''abcdxxefxxxx'') (toLowerCase ''abcdef'')"
    "\<not> startsWith (toLowerCase ''abcdxxefxxxx'') (toLowerCase ''abcdef'')"
    "\<not> startsWith (toLowerCase ''abcdef'') (toLowerCase ''abcdxxefxxxx'')"
    "subseq (toLowerCase ''abcdef'') (toLowerCase ''abcdxxefxxxx'')"
    unfolding l by (simp_all add: startsWith_def)
  have m: "maxRun ''abcdef'' ''abcdxxefxxxx'' = 4" by code_simp
  have n: "length ''abcdef'' = 6" "length ''abcdxxefxxxx'' = 12" by simp_all
  have a: "fdiv (fnat 6) (fnat 12) = 1 / 2" by code_simp
  have b: "fdiv (fnat 4) (fnat 6) = 6004799503160661 / 9007199254740992" by code_simp
  have c: "fadd (1 / 2) (6004799503160661 / 9007199254740992) = 2627099782632789 / 2251799813685248" by code_simp
  have d: "fdiv (2627099782632789 / 2251799813685248) 2 = 2627099782632789 / 4503599627370496" by code_simp
  have e: "fmul (2627099782632789 / 4503599627370496) (round64 (3 / 10)) = 6305039478318693 / 36028797018963968" by code_simp
  have f: "fadd (round64 (5 / 10)) (6305039478318693 / 36028797018963968) = 6079859496950169 / 9007199254740992" by code_simp
  have "subseqValue ''abcdef'' ''abcdxxefxxxx'' = 2627099782632789 / 4503599627370496"
    unfolding subseqValue_def m n a b c d ..
  with fuzzy_subseq [OF h] show ?thesis unfolding l by (simp only: e f)
qed

lemma ev_tieA_full: "fuzzyMatchScore ''abcdef'' ''abcdxxefxxxx zzz'' = Fin (21 / 32)"
proof -
  have l: "toLowerCase ''abcdef'' = ''abcdef''" "toLowerCase ''abcdxxefxxxx zzz'' = ''abcdxxefxxxx zzz''" by code_simp+
  have h: "toLowerCase ''abcdxxefxxxx zzz'' \<noteq> toLowerCase ''abcdef''"
    "\<not> str_includes (toLowerCase ''abcdxxefxxxx zzz'') (toLowerCase ''abcdef'')"
    "\<not> startsWith (toLowerCase ''abcdxxefxxxx zzz'') (toLowerCase ''abcdef'')"
    "\<not> startsWith (toLowerCase ''abcdef'') (toLowerCase ''abcdxxefxxxx zzz'')"
    "subseq (toLowerCase ''abcdef'') (toLowerCase ''abcdxxefxxxx zzz'')"
    unfolding l by (simp_all add: startsWith_def)
  have m: "maxRun ''abcdef'' ''abcdxxefxxxx zzz'' = 4" by code_simp
  have n: "length ''abcdef'' = 6" "length ''abcdxxefxxxx zzz'' = 16" by simp_all
  have a: "fdiv (fnat 6) (fnat 16) = 3 / 8" by code_simp
  have b: "fdiv (fnat 4) (fnat 6) = 6004799503160661 / 9007199254740992" by code_simp
  have c: "fadd (3 / 8) (6004799503160661 / 9007199254740992) = 2345624805922133 / 2251799813685248" by code_simp
  have d: "fdiv (2345624805922133 / 2251799813685248) 2 = 2345624805922133 / 4503599627370496" by code_simp
  have e: "fmul (2345624805922133 / 4503599627370496) (round64 (3 / 10)) = 5629499534213119 / 36028797018963968" by code_simp
  have f: "fadd (round64 (5 / 10)) (5629499534213119 / 36028797018963968) = 21 / 32" by code_simp
  have "subseqValue ''abcdef'' ''abcdxxefxxxx zzz'' = 2345624805922133 / 4503599627370496"
    unfolding subseqValue_def m n a b c d ..
  with fuzzy_subseq [OF h] show ?thesis unfolding l by (simp only: e f)
qed

lemma ev_tieB: "fuzzyMatchScore ''abcdef'' ''abcdexfxxxxxxxxxxx'' = Fin (3039929748475085 / 4503599627370496)"
proof -
  have l: "toLowerCase ''abcdef'' = ''abcdef''" "toLowerCase ''abcdexfxxxxxxxxxxx'' = ''abcdexfxxxxxxxxxxx''" by code_simp+
  have h: "toLowerCase ''abcdexfxxxxxxxxxxx'' \<noteq> toLowerCase ''abcdef''"
    "\<not> str_includes (toLowerCase ''abcdexfxxxxxxxxxxx'') (toLowerCase ''abcdef'')"
    "\<not> startsWith (toLowerCase ''abcdexfxxxxxxxxxxx'') (toLowerCase ''abcdef'')"
    "\<not> startsWith (toLowerCase ''abcdef'') (toLowerCase ''abcdexfxxxxxxxxxxx'')"
    "subseq (toLowerCase ''abcdef'') (toLowerCase ''abcdexfxxxxxxxxxxx'')"
    unfolding l by (simp_all add: startsWith_def)
  have m: "maxRun ''abcdef'' ''abcdexfxxxxxxxxxxx'' = 5" by code_simp
  have n: "length ''abcdef'' = 6" "length ''abcdexfxxxxxxxxxxx'' = 18" by simp_all
  have a: "fdiv (fnat 6) (fnat 18) = 6004799503160661 / 18014398509481984" by code_simp
  have b: "fdiv (fnat 5) (fnat 6) = 7505999378950827 / 9007199254740992" by code_simp
  have c: "fadd (6004799503160661 / 18014398509481984) (7505999378950827 / 9007199254740992) = 5254199565265579 / 4503599627370496" by code_simp
  have d: "fdiv (5254199565265579 / 4503599627370496) 2 = 5254199565265579 / 9007199254740992" by code_simp
  have e: "fmul (5254199565265579 / 9007199254740992) (round64 (3 / 10)) = 6305039478318695 / 36028797018963968" by code_simp
  have f: "fadd (round64 (5 / 10)) (6305039478318695 / 36028797018963968) = 3039929748475085 / 4503599627370496" by code_simp
  have "subseqValue ''abcdef'' ''abcdexfxxxxxxxxxxx'' = 5254199565265579 / 9007199254740992"
    unfolding subseqValue_def m n a b c d ..
  with fuzzy_subseq [OF h] show ?thesis unfolding l by (simp only: e f)
qed

lemma ev_tieB_full: "fuzzyMatchScore ''abcdef'' ''abcdexfxxxxxxxxxxx zzz'' = Fin (5997975867361615 / 9007199254740992)"
proof -
  have l: "toLowerCase ''abcdef'' = ''abcdef''" "toLowerCase ''abcdexfxxxxxxxxxxx zzz'' = ''abcdexfxxxxxxxxxxx zzz''" by code_simp+
  have h: "toLowerCase ''abcdexfxxxxxxxxxxx zzz'' \<noteq> toLowerCase ''abcdef''"
    "\<not> str_includes (toLowerCase ''abcdexfxxxxxxxxxxx zzz'') (toLowerCase ''abcdef'')"
    "\<not> startsWith (toLowerCase ''abcdexfxxxxxxxxxxx zzz'') (toLowerCase ''abcdef'')"
    "\<not> startsWith (toLowerCase ''abcdef'') (toLowerCase ''abcdexfxxxxxxxxxxx zzz'')"
    "subseq (toLowerCase ''abcdef'') (toLowerCase ''abcdexfxxxxxxxxxxx zzz'')"
    unfolding l by (simp_all add: startsWith_def)
  have m: "maxRun ''abcdef'' ''abcdexfxxxxxxxxxxx zzz'' = 5" by code_simp
  have n: "length ''abcdef'' = 6" "length ''abcdexfxxxxxxxxxxx zzz'' = 22" by simp_all
  have a: "fdiv (fnat 6) (fnat 22) = 1228254443828317 / 4503599627370496" by code_simp
  have b: "fdiv (fnat 5) (fnat 6) = 7505999378950827 / 9007199254740992" by code_simp
  have c: "fadd (1228254443828317 / 4503599627370496) (7505999378950827 / 9007199254740992) = 2490627066651865 / 2251799813685248" by code_simp
  have d: "fdiv (2490627066651865 / 2251799813685248) 2 = 2490627066651865 / 4503599627370496" by code_simp
  have e: "fmul (2490627066651865 / 4503599627370496) (round64 (3 / 10)) = 1494376239991119 / 9007199254740992" by code_simp
  have f: "fadd (round64 (5 / 10)) (1494376239991119 / 9007199254740992) = 5997975867361615 / 9007199254740992" by code_simp
  have "subseqValue ''abcdef'' ''abcdexfxxxxxxxxxxx zzz'' = 2490627066651865 / 4503599627370496"
    unfolding subseqValue_def m n a b c d ..
  with fuzzy_subseq [OF h] show ?thesis unfolding l by (simp only: e f)
qed

lemma tie_scores:
  "recordScore ''abcdef'' emp_tieA = 6079859496950169 / 9007199254740992"
  "recordScore ''abcdef'' emp_tieB = 3039929748475085 / 4503599627370496"
proof -
  show "recordScore ''abcdef'' emp_tieA = 6079859496950169 / 9007199254740992"
  proof (rule antisym)
    show "recordScore ''abcdef'' emp_tieA \<le> 6079859496950169 / 9007199254740992"
    proof (rule recordScore_le)
      fix f assume "f \<in> fieldsOf emp_tieA"
      then show "val (fuzzyMatchScore ''abcdef'' f) \<le> 6079859496950169 / 9007199254740992"
        unfolding fieldsOf_def emp_tieA_def by (auto simp: ev_tieA ev_tieA_full ev_zzz)
    qed
    have "''abcdxxefxxxx'' \<in> fieldsOf emp_tieA" by (simp add: fieldsOf_def emp_tieA_def)
    from recordScore_ge_field [OF this, of "''abcdef''"]
    show "6079859496950169 / 9007199254740992 \<le> recordScore ''abcdef'' emp_tieA"
      by (simp add: ev_tieA)
  qed
  show "recordScore ''abcdef'' emp_tieB = 3039929748475085 / 4503599627370496"
  proof (rule antisym)
    show "recordScore ''abcdef'' emp_tieB \<le> 3039929748475085 / 4503599627370496"
    proof (rule recordScore_le)
      fix f assume "f \<in> fieldsOf emp_tieB"
      then show "val (fuzzyMatchScore ''abcdef'' f) \<le> 3039929748475085 / 4503599627370496"
        unfolding fieldsOf_def emp_tieB_def by (auto simp: ev_tieB ev_tieB_full ev_zzz)
    qed
    have "''abcdexfxxxxxxxxxxx'' \<in> fieldsOf emp_tieB" by (simp add: fieldsOf_def emp_tieB_def)
    from recordScore_ge_field [OF this, of "''abcdef''"]
    show "3039929748475085 / 4503599627370496 \<le> recordScore ''abcdef'' emp_tieB"
      by (simp add: ev_tieB)
  qed
qed

lemma tie_order: "searchEmployees [emp_tieA, emp_tieB] ''abcdef'' = [emp_tieB, emp_tieA]"
proof -
  have ne: "trim ''abcdef'' \<noteq> []" by (simp add: trim_examples)
  have k: "round64 (3 / 10) \<le> recordScore ''abcdef'' emp_tieA"
    "round64 (3 / 10) \<le> recordScore ''abcdef'' emp_tieB"
    using more_consts(7) unfolding tie_scores by linarith+
  have o: "recordScore ''abcdef'' emp_tieA < recordScore ''abcdef'' emp_tieB"
    unfolding tie_scores by simp
  show ?thesis
    unfolding searchEmployees_eq [OF ne] trim_examples using o by (simp add: k)
qed

section \<open>The claims about the ranking\<close>

text \<open>
  C1. For a query whose trimmed form is not empty, the score of a record is the maximum
  of the seven scores of the trimmed query against first name, last name, email, role,
  department, status and the composite \<open>first_name last_name\<close>; a record is in the
  output exactly when it is in the input and its score is at least 0.3 (the double that
  the literal denotes), and no record of the output has a score below it.
\<close>

theorem searchEmployees_threshold_iff:
  assumes "trim q \<noteq> []"
  shows "recordScore (trim q) e =
           Max ((\<lambda>f. val (fuzzyMatchScore (trim q) f)) `
                {first_name e, last_name e, email e, role e, department e, status e,
                 first_name e @ '' '' @ last_name e})
         \<and> bestScore (trim q) e = Fin (recordScore (trim q) e)
         \<and> (e \<in> set (searchEmployees es q)
              \<longleftrightarrow> e \<in> set es \<and> round64 (3 / 10) \<le> recordScore (trim q) e)
         \<and> (\<forall>r \<in> set (searchEmployees es q). \<not> recordScore (trim q) r < round64 (3 / 10))"
proof -
  have out: "set (searchEmployees es q)
             = {e \<in> set es. round64 (3 / 10) \<le> recordScore (trim q) e}"
    by (simp add: searchEmployees_eq [OF assms])
  have a: "recordScore (trim q) e =
           Max ((\<lambda>f. val (fuzzyMatchScore (trim q) f)) `
                {first_name e, last_name e, email e, role e, department e, status e,
                 first_name e @ '' '' @ last_name e})"
    by (rule recordScore_Max)
  have b: "bestScore (trim q) e = Fin (recordScore (trim q) e)"
    by (rule bestScore_Fin)
  have c: "e \<in> set (searchEmployees es q)
           \<longleftrightarrow> e \<in> set es \<and> round64 (3 / 10) \<le> recordScore (trim q) e"
    unfolding out by simp
  have d: "\<forall>r \<in> set (searchEmployees es q). \<not> recordScore (trim q) r < round64 (3 / 10)"
    unfolding out by auto
  show ?thesis
    by (intro conjI) (fact a, fact b, fact c, fact d)
qed

theorem searchEmployees_threshold_iff_witness:
  "trim '' jon '' \<noteq> []
   \<and> emp_john \<in> set (searchEmployees [emp_xena, emp_john, emp_jon] '' jon '')
   \<and> emp_xena \<notin> set (searchEmployees [emp_xena, emp_john, emp_jon] '' jon '')
   \<and> \<not> recordScore ''jon'' emp_john < round64 (3 / 10)"
proof -
  have t: "trim '' jon '' = ''jon''" by (rule trim_examples)
  then have h: "trim '' jon '' \<noteq> []" by simp
  have s: "round64 (3 / 10) \<le> recordScore ''jon'' emp_john"
    "\<not> round64 (3 / 10) \<le> recordScore ''jon'' emp_xena"
    using john_score(1) more_consts(7) lit_consts(1) by (simp_all add: xena_score)
  note a = searchEmployees_threshold_iff [OF h, of emp_john "[emp_xena, emp_john, emp_jon]"]
  note b = searchEmployees_threshold_iff [OF h, of emp_xena "[emp_xena, emp_john, emp_jon]"]
  have i: "emp_john \<in> set (searchEmployees [emp_xena, emp_john, emp_jon] '' jon '')"
    using a [THEN conjunct2, THEN conjunct2, THEN conjunct1] unfolding t by (simp add: s)
  have o: "emp_xena \<notin> set (searchEmployees [emp_xena, emp_john, emp_jon] '' jon '')"
    using b [THEN conjunct2, THEN conjunct2, THEN conjunct1] unfolding t by (simp add: s)
  have "\<not> recordScore ''jon'' emp_john < round64 (3 / 10)"
    using a [THEN conjunct2, THEN conjunct2, THEN conjunct2] i unfolding t by blast
  with h i o show ?thesis by simp
qed

text \<open>
  C2. For a query whose trimmed form is not empty, the output is sorted by score in
  descending order, and the records of any one score appear in the output in the order
  they have in the input: the sort is stable and has no secondary key. The scores are
  the doubles the code computes: two records tie when their doubles are equal.
\<close>

theorem searchEmployees_sorted_stable:
  assumes "trim q \<noteq> []"
  shows "sorted_wrt (\<lambda>a b. recordScore (trim q) b \<le> recordScore (trim q) a) (searchEmployees es q)
         \<and> (\<forall>k. filter (\<lambda>e. recordScore (trim q) e = k) (searchEmployees es q)
                 = filter (\<lambda>e. recordScore (trim q) e = k
                                \<and> round64 (3 / 10) \<le> recordScore (trim q) e) es)"
proof -
  let ?f = "\<lambda>e. - recordScore (trim q) e"
  let ?kept = "filter (\<lambda>e. round64 (3 / 10) \<le> recordScore (trim q) e) es"
  have eq: "searchEmployees es q = sort_key ?f ?kept" by (rule searchEmployees_eq [OF assms])
  have "sorted (map ?f (sort_key ?f ?kept))" by (rule sorted_sort_key)
  then have s: "sorted_wrt (\<lambda>a b. recordScore (trim q) b \<le> recordScore (trim q) a) (sort_key ?f ?kept)"
    by (simp add: sorted_map)
  have st: "filter (\<lambda>e. recordScore (trim q) e = k) (sort_key ?f ?kept)
            = filter (\<lambda>e. recordScore (trim q) e = k
                           \<and> round64 (3 / 10) \<le> recordScore (trim q) e) es" for k
  proof -
    have "filter (\<lambda>e. ?f e = - k) (sort_key ?f ?kept) = filter (\<lambda>e. ?f e = - k) ?kept"
      by (rule sort_key_stable)
    then show ?thesis by (simp add: conj_commute)
  qed
  show ?thesis unfolding eq using s st by blast
qed

theorem searchEmployees_sorted_stable_witness:
  "trim ''act'' \<noteq> []
   \<and> filter (\<lambda>e. recordScore ''act'' e = round64 (9 / 10))
        (searchEmployees [emp_xena, emp_john, emp_jon] ''act'')
      = [emp_xena, emp_john, emp_jon]
   \<and> recordScore ''abcdef'' emp_tieA < recordScore ''abcdef'' emp_tieB
   \<and> searchEmployees [emp_tieA, emp_tieB] ''abcdef'' = [emp_tieB, emp_tieA]"
proof -
  have t: "trim ''act'' = ''act''" by (rule trim_examples)
  then have h: "trim ''act'' \<noteq> []" by simp
  have "filter (\<lambda>e. recordScore ''act'' e = round64 (9 / 10))
          (searchEmployees [emp_xena, emp_john, emp_jon] ''act'')
        = filter (\<lambda>e. recordScore ''act'' e = round64 (9 / 10)
                       \<and> round64 (3 / 10) \<le> recordScore ''act'' e)
            [emp_xena, emp_john, emp_jon]"
    using searchEmployees_sorted_stable [OF h, of "[emp_xena, emp_john, emp_jon]"]
    unfolding t by blast
  also have "\<dots> = [emp_xena, emp_john, emp_jon]" by (simp add: act_scores more_consts(5))
  finally have a: "filter (\<lambda>e. recordScore ''act'' e = round64 (9 / 10))
          (searchEmployees [emp_xena, emp_john, emp_jon] ''act'') = [emp_xena, emp_john, emp_jon]" .
  have b: "recordScore ''abcdef'' emp_tieA < recordScore ''abcdef'' emp_tieB"
    unfolding tie_scores by simp
  show ?thesis
    by (intro conjI) (fact h, fact a, fact b, fact tie_order)
qed

text \<open>
  C3. When the query trims to the empty string, the output is the input: the same
  records in the same order, and so of the same length.
\<close>

theorem searchEmployees_empty_query:
  assumes "trim q = []"
  shows "searchEmployees es q = es \<and> length (searchEmployees es q) = length es"
  using assms by (simp add: searchEmployees_def)

theorem searchEmployees_empty_query_witness:
  "trim [CHR '' '', CHR 0x09, CHR '' ''] = []
   \<and> searchEmployees [emp_xena, emp_john, emp_jon] [CHR '' '', CHR 0x09, CHR '' '']
      = [emp_xena, emp_john, emp_jon]"
proof -
  have h: "trim [CHR '' '', CHR 0x09, CHR '' ''] = []" by (rule trim_examples)
  from searchEmployees_empty_query [OF h, of "[emp_xena, emp_john, emp_jon]"] h
  show ?thesis by simp
qed

text \<open>
  C8. Ranking is idempotent: ranking the output again with the same query returns the
  output, the same records in the same order.
\<close>

theorem searchEmployees_idempotent:
  "searchEmployees (searchEmployees es q) q = searchEmployees es q"
proof (cases "trim q = []")
  case True
  then show ?thesis by (simp add: searchEmployees_def)
next
  case False
  let ?f = "\<lambda>e. - recordScore (trim q) e"
  let ?P = "\<lambda>e. round64 (3 / 10) \<le> recordScore (trim q) e"
  have eq: "searchEmployees xs q = sort_key ?f (filter ?P xs)" for xs
    by (rule searchEmployees_eq [OF False])
  have "filter ?P (sort_key ?f (filter ?P es)) = sort_key ?f (filter ?P es)"
    by (rule filter_True) simp
  moreover have "sort_key ?f (sort_key ?f (filter ?P es)) = sort_key ?f (filter ?P es)"
    by (rule sort_key_id_if_sorted) (rule sorted_sort_key)
  ultimately show ?thesis by (simp only: eq)
qed

theorem searchEmployees_idempotent_witness:
  "searchEmployees (searchEmployees [emp_xena, emp_john, emp_jon] ''jon'') ''jon''
   = [emp_jon, emp_john]"
proof -
  have "searchEmployees [emp_xena, emp_john, emp_jon] ''jon'' = [emp_jon, emp_john]"
    by (rule search_jon_example) (rule trim_examples)
  with searchEmployees_idempotent [of "[emp_xena, emp_john, emp_jon]" "''jon''"]
  show ?thesis by simp
qed

text \<open>
  C9. The output selects from the input: every record of the output is a record of the
  input, no record occurs more often in the output than in the input (so a record that
  matches in several fields is still returned once), and the output is not longer than
  the input.
\<close>

theorem searchEmployees_selection:
  "set (searchEmployees es q) \<subseteq> set es
   \<and> mset (searchEmployees es q) \<subseteq># mset es
   \<and> length (searchEmployees es q) \<le> length es
   \<and> (distinct es \<longrightarrow> distinct (searchEmployees es q))"
proof (cases "trim q = []")
  case True
  then show ?thesis by (simp add: searchEmployees_def)
next
  case False
  show ?thesis
    unfolding searchEmployees_eq [OF False] by (auto simp: mset_filter)
qed

theorem searchEmployees_selection_witness:
  "distinct [emp_xena, emp_john, emp_jon]
   \<and> distinct (searchEmployees [emp_xena, emp_john, emp_jon] ''act'')
   \<and> length (searchEmployees [emp_xena, emp_john, emp_jon] ''act'') \<le> 3"
proof -
  have d: "distinct [emp_xena, emp_john, emp_jon]"
    by (simp add: emp_xena_def emp_john_def emp_jon_def)
  with searchEmployees_selection [of "[emp_xena, emp_john, emp_jon]" "''act''"]
  show ?thesis by simp
qed

text \<open>
  C7, as the code has it. Ranking is total over the record collections of the declared
  type: when the six matched fields of every record hold strings, the call returns. A
  missing or non-string value is not read as the empty string: the call throws a
  \<open>TypeError\<close> exactly when the trimmed query is not empty and some record has such a
  value in a matched field.
\<close>

theorem searchEmployeesRT_total_on_strings:
  "(searchEmployeesRT es q = Inl TypeError \<longleftrightarrow> trim q \<noteq> [] \<and> (\<exists>e \<in> set es. \<not> wellTyped e))
   \<and> ((\<forall>e \<in> set es. wellTyped e) \<longrightarrow> (\<exists>out. searchEmployeesRT es q = Inr out))"
proof -
  have a: "searchEmployeesRT es q = Inl TypeError \<longleftrightarrow> trim q \<noteq> [] \<and> (\<exists>e \<in> set es. \<not> wellTyped e)"
    using searchEmployeesRT_isl [of es q] isl_TypeError [of "searchEmployeesRT es q"] by simp
  have "\<exists>out. searchEmployeesRT es q = Inr out" if "\<forall>e \<in> set es. wellTyped e"
  proof -
    from that a have "searchEmployeesRT es q \<noteq> Inl TypeError" by blast
    then have "\<not> isl (searchEmployeesRT es q)" by (simp add: isl_TypeError)
    then show ?thesis by (cases "searchEmployeesRT es q") simp_all
  qed
  with a show ?thesis by blast
qed

theorem searchEmployeesRT_total_on_strings_witness:
  "wellTyped raw_jon \<and> searchEmployeesRT [raw_jon] ''jon'' = Inr [raw_jon]"
proof -
  have w: "\<forall>e \<in> set [raw_jon]. wellTyped e" by (simp add: wellTyped_def raw_jon_def)
  obtain out where out: "searchEmployeesRT [raw_jon] ''jon'' = Inr out"
    using searchEmployeesRT_total_on_strings [of "[raw_jon]" "''jon''"] w by blast
  have r: "raw_jon = toRaw emp_jon" by (simp add: raw_jon_def emp_jon_def toRaw_def)
  have ne: "trim ''jon'' \<noteq> []" by (simp add: trim_examples)
  have "searchEmployees [emp_jon] ''jon'' = [emp_jon]"
    unfolding searchEmployees_eq [OF ne] trim_examples
    using more_consts(8) by (simp add: jon_score)
  with searchEmployeesRT_toRaw [of "[emp_jon]" "''jon''"]
  have "searchEmployeesRT [raw_jon] ''jon'' = Inr [raw_jon]" by (simp add: r)
  with w out show ?thesis by simp
qed

text \<open>
  The claim C7 as it is written fails: a record whose department is missing makes the
  ranking of the whole collection throw, although the other record is well formed; with
  the empty string in its place the call returns both records.
\<close>

theorem searchEmployeesRT_missing_field_counterexample:
  "searchEmployeesRT [raw_jon, raw_nodept] ''jon'' = Inl TypeError
   \<and> searchEmployeesRT [raw_jon, raw_nodept\<lparr>raw_department := JString []\<rparr>] ''jon''
      = Inr [raw_jon, raw_nodept\<lparr>raw_department := JString []\<rparr>]"
proof -
  have ne: "trim ''jon'' \<noteq> []" by (simp add: trim_examples)
  have "\<not> wellTyped raw_nodept" by (simp add: wellTyped_def raw_nodept_def)
  then have a: "searchEmployeesRT [raw_jon, raw_nodept] ''jon'' = Inl TypeError"
    using searchEmployeesRT_isl [of "[raw_jon, raw_nodept]" "''jon''"] ne
    by (simp add: isl_TypeError)
  let ?e = "emp_john\<lparr>department := []\<rparr>"
  have r: "raw_jon = toRaw emp_jon" "raw_nodept\<lparr>raw_department := JString []\<rparr> = toRaw ?e"
    by (simp_all add: raw_jon_def emp_jon_def raw_nodept_def emp_john_def toRaw_def)
  have "[] \<in> fieldsOf ?e" by (simp add: fieldsOf_def)
  from recordScore_ge_field [OF this, of "''jon''"] fuzzy_empty_target_val [of "''jon''"]
  have "round64 (85 / 100) \<le> recordScore ''jon'' ?e" by simp
  with more_consts(6) have k: "round64 (3 / 10) \<le> recordScore ''jon'' ?e" by linarith
  have o: "recordScore ''jon'' ?e \<le> 1" by (rule recordScore_le_1)
  have "searchEmployees [emp_jon, ?e] ''jon'' = [emp_jon, ?e]"
    unfolding searchEmployees_eq [OF ne] trim_examples
    using more_consts(8) k o by (simp add: jon_score)
  with searchEmployeesRT_toRaw [of "[emp_jon, ?e]" "''jon''"]
  have b: "searchEmployeesRT [raw_jon, raw_nodept\<lparr>raw_department := JString []\<rparr>] ''jon''
           = Inr [raw_jon, raw_nodept\<lparr>raw_department := JString []\<rparr>]"
    by (simp add: r)
  show ?thesis by (intro conjI) (fact a, fact b)
qed

end
